theory Spec2Isabelle
  imports Main "HOL-Library.Multiset"
begin

section \<open>Data model of check-certs.go\<close>

text \<open>
  Strings are byte strings (\<open>char list\<close>). Go's \<open>int\<close> is modelled as \<open>int\<close>: the
  program only compares and increments its integers.
\<close>

subsection \<open>Time\<close>

text \<open>
  Modelled from the spec: Go's package \<open>time\<close> is not part of the repository. The spec
  has timestamps (\<open>NotAfter\<close>, the threshold) that are points in time and a threshold
  computed by calendar-day addition, so a time carries both a calendar reading and an
  instant. A \<open>time.Time\<close> is a wall-clock reading in a location. A location maps the wall-clock
  seconds (counted from 1970-01-01 00:00:00 of that wall clock) to the offset east of UTC,
  in seconds, in effect at that reading. UTC is the location with offset 0 everywhere.
\<close>

type_synonym Location = "int \<Rightarrow> int"

record Time =
  year :: int
  month :: int
  day :: int
  hour :: int
  minute :: int
  second :: int
  nsec :: int
  loc :: Location

definition UTC :: Location where
  "UTC = (\<lambda>_. 0)"

definition isLeap :: "int \<Rightarrow> bool" where
  "isLeap y = (y mod 4 = 0 \<and> (y mod 100 \<noteq> 0 \<or> y mod 400 = 0))"

definition daysIn :: "int \<Rightarrow> int \<Rightarrow> int" where
  "daysIn y m =
     (if m = 2 then (if isLeap y then 29 else 28)
      else if m = 4 \<or> m = 6 \<or> m = 9 \<or> m = 11 then 30
      else 31)"

definition daysBeforeYear :: "int \<Rightarrow> int" where
  "daysBeforeYear y = 365 * (y - 1) + (y - 1) div 4 - (y - 1) div 100 + (y - 1) div 400"

definition daysBefore :: "int \<Rightarrow> int" where
  "daysBefore m = [0, 31, 59, 90, 120, 151, 181, 212, 243, 273, 304, 334] ! nat (m - 1)"

definition unixDays :: "int \<Rightarrow> int \<Rightarrow> int \<Rightarrow> int" where
  "unixDays y m d =
     daysBeforeYear y + daysBefore m + (if isLeap y \<and> 3 \<le> m then 1 else 0) + (d - 1) - 719162"

definition wallSeconds :: "Time \<Rightarrow> int" where
  "wallSeconds t =
     unixDays (year t) (month t) (day t) * 86400 + hour t * 3600 + minute t * 60 + second t"

definition unixSeconds :: "Time \<Rightarrow> int" where
  "unixSeconds t = wallSeconds t - loc t (wallSeconds t)"

text \<open>The instant of a reading, in nanoseconds since the Unix epoch.\<close>

definition instant :: "Time \<Rightarrow> int" where
  "instant t = unixSeconds t * 1000000000 + nsec t"

text \<open>
  Modelled from the spec: \<open>time.Time.After\<close> belongs to Go's standard library and is not
  part of the repository. The spec reads \<open>threshold.After(cert.NotAfter)\<close> as the strict
  comparison \<open>NotAfter < threshold\<close> of two instants.
\<close>

definition After :: "Time \<Rightarrow> Time \<Rightarrow> bool" where
  "After t u = (instant u < instant t)"

text \<open>
  Modelled from the spec: \<open>time.Time.AddDate\<close> belongs to Go's standard library and is not
  part of the repository. The spec describes the threshold as calendar-day addition that
  respects month and year rollover and is not a fixed multiple of 24 hours: the year, month
  and day fields are increased, a month outside 1..12 rolls into the year, a day outside the
  month rolls into the neighbouring months, and the clock reading and the location stay
  as they are.
\<close>

function normDay :: "int \<Rightarrow> int \<Rightarrow> int \<Rightarrow> int \<times> int \<times> int" where
  "normDay y m d =
     (if daysIn y m < d then
        (if m = 12 then normDay (y + 1) 1 (d - daysIn y m)
         else normDay y (m + 1) (d - daysIn y m))
      else if d < 1 then
        (if m = 1 then normDay (y - 1) 12 (d + daysIn (y - 1) 12)
         else normDay y (m - 1) (d + daysIn y (m - 1)))
      else (y, m, d))"
  by pat_completeness auto
termination
  by (relation "measure (\<lambda>(y, m, d). if d < 1 then nat (1 - d) + 100 else nat d)")
     (auto simp: daysIn_def)

declare normDay.simps [simp del]

text \<open>
  Modelled from the spec: \<open>AddDate(years, months, days)\<close> of Go's standard library, as the
  calendar addition described above: the month rolls into the year first, then the day rolls
  into the months.
\<close>

definition AddDate :: "Time \<Rightarrow> int \<Rightarrow> int \<Rightarrow> int \<Rightarrow> Time" where
  "AddDate t years months days =
     (let m0 = month t - 1 + months;
          y1 = year t + years + m0 div 12;
          m1 = m0 mod 12 + 1;
          (y2, m2, d2) = normDay y1 m1 (day t + days)
      in t\<lparr>year := y2, month := m2, day := d2\<rparr>)"

subsection \<open>Certificates, errors, results\<close>

text \<open>The two fields of an \<open>x509.Certificate\<close> that the program reads.\<close>

record cert =
  NotAfter :: Time
  CommonName :: string

text \<open>
  The errors the program builds, by the call that builds them and its arguments; the
  message text is a function of these.
  \<^item> \<open>HostsFileNotExist p\<close>: \<open>errors.Errorf("provided hosts file %s does not exist", p)\<close>
  \<^item> \<open>OpenHostsFile e\<close>: \<open>errors.Wrap(e, "error opening hosts file")\<close>
  \<^item> \<open>ReadHostsFile e\<close>: \<open>errors.Wrap(e, "error reading hosts file")\<close>
  \<^item> \<open>TlsDial e\<close>: \<open>errors.Wrap(e, "tls dial")\<close>
  \<^item> \<open>CertExpires i cn t\<close>: \<open>errors.Errorf("cert[%d] %s expires at %v", i, cn, t)\<close>
\<close>

datatype error =
    HostsFileNotExist string
  | OpenHostsFile string
  | ReadHostsFile string
  | TlsDial string
  | CertExpires nat string Time

record result =
  Hostname :: string
  Err :: "error option"

section \<open>readHostsFile\<close>

text \<open>
  What the file system answers for a path: \<open>os.Stat\<close> reports that it does not exist;
  \<open>os.Open\<close> fails with an error; or the file opens, and the \<open>bufio.Scanner\<close> yields
  the given lines one by one (without their line ends) and then reports the given error,
  if any.
\<close>

datatype fileAnswer = NotExist | OpenFails string | Opened "string list" "string option"

text \<open>
  \<open>strings.HasPrefix(s, p)\<close> and \<open>strings.HasSuffix(s, p)\<close> of Go's standard library:
  \<open>s\<close> begins, or ends, with the bytes \<open>p\<close>.
\<close>

definition HasPrefix :: "string \<Rightarrow> string \<Rightarrow> bool" where
  "HasPrefix s p = (take (length p) s = p)"

definition HasSuffix :: "string \<Rightarrow> string \<Rightarrow> bool" where
  "HasSuffix s p = HasPrefix (rev s) (rev p)"

text \<open>
  Modelled from the spec: \<open>strings.TrimSpace\<close> belongs to Go's standard library and is not
  part of the repository. The spec has one hostname per line, blank-trimmed; the library
  removes all leading and trailing white space as defined by Unicode. A Go string is a
  sequence of bytes, read as UTF-8. \<open>whiteSpace\<close> lists the UTF-8 encodings of the code
  points with the property White_Space: U+0009 to U+000D, U+0020, U+0085, U+00A0, U+1680,
  U+2000 to U+200A, U+2028, U+2029, U+202F, U+205F and U+3000. A byte that starts no
  such encoding is no white space, also when it is not valid UTF-8.
\<close>

definition whiteSpace :: "string list" where
  "whiteSpace =
     [[CHR 0x09], [CHR 0x0A], [CHR 0x0B], [CHR 0x0C], [CHR 0x0D], [CHR 0x20],
      [CHR 0xC2, CHR 0x85], [CHR 0xC2, CHR 0xA0],
      [CHR 0xE1, CHR 0x9A, CHR 0x80],
      [CHR 0xE2, CHR 0x80, CHR 0x80], [CHR 0xE2, CHR 0x80, CHR 0x81],
      [CHR 0xE2, CHR 0x80, CHR 0x82], [CHR 0xE2, CHR 0x80, CHR 0x83],
      [CHR 0xE2, CHR 0x80, CHR 0x84], [CHR 0xE2, CHR 0x80, CHR 0x85],
      [CHR 0xE2, CHR 0x80, CHR 0x86], [CHR 0xE2, CHR 0x80, CHR 0x87],
      [CHR 0xE2, CHR 0x80, CHR 0x88], [CHR 0xE2, CHR 0x80, CHR 0x89],
      [CHR 0xE2, CHR 0x80, CHR 0x8A],
      [CHR 0xE2, CHR 0x80, CHR 0xA8], [CHR 0xE2, CHR 0x80, CHR 0xA9],
      [CHR 0xE2, CHR 0x80, CHR 0xAF],
      [CHR 0xE2, CHR 0x81, CHR 0x9F],
      [CHR 0xE3, CHR 0x80, CHR 0x80]]"

text \<open>
  Removing white space at the front: as long as the string begins with one of the
  encodings \<open>ws\<close>, that encoding is dropped.
\<close>

function trimPrefix :: "string list \<Rightarrow> string \<Rightarrow> string" where
  "trimPrefix ws s =
     (case find (\<lambda>w. w \<noteq> [] \<and> HasPrefix s w) ws of
        None \<Rightarrow> s
      | Some w \<Rightarrow> trimPrefix ws (drop (length w) s))"
  by pat_completeness auto
termination
proof (relation "measure (\<lambda>(ws, s). length s)")
  show "wf (measure (\<lambda>(ws, s). length s))" by simp
next
  fix ws :: "string list" and s w :: string
  assume "find (\<lambda>w. w \<noteq> [] \<and> HasPrefix s w) ws = Some w"
  then have "w \<noteq> []" "take (length w) s = w"
    by (auto simp: find_Some_iff HasPrefix_def)
  then have "s \<noteq> []" by auto
  with \<open>w \<noteq> []\<close> show "((ws, drop (length w) s), (ws, s)) \<in> measure (\<lambda>(ws, s). length s)"
    by simp
qed

declare trimPrefix.simps [simp del]

definition TrimLeft :: "string \<Rightarrow> string" where
  "TrimLeft s = trimPrefix whiteSpace s"

text \<open>At the end: the same on the reversed string with the reversed encodings.\<close>

definition TrimRight :: "string \<Rightarrow> string" where
  "TrimRight s = rev (trimPrefix (map rev whiteSpace) (rev s))"

definition TrimSpace :: "string \<Rightarrow> string" where
  "TrimSpace s = TrimRight (TrimLeft s)"

text \<open>The loop \<open>for scanner.Scan() { hosts = append(hosts, TrimSpace(scanner.Text())) }\<close>.\<close>

fun scanLoop :: "string list \<Rightarrow> string list \<Rightarrow> string list" where
  "scanLoop hosts [] = hosts"
| "scanLoop hosts (l # ls) = scanLoop (hosts @ [TrimSpace l]) ls"

definition readHostsFile :: "(string \<Rightarrow> fileAnswer) \<Rightarrow> string \<Rightarrow> string list \<times> error option" where
  "readHostsFile fs hostsFile =
     (case fs hostsFile of
        NotExist \<Rightarrow> ([], Some (HostsFileNotExist hostsFile))
      | OpenFails e \<Rightarrow> ([], Some (OpenHostsFile e))
      | Opened ls scanErr \<Rightarrow>
          (let hosts = scanLoop [] ls in
           case scanErr of
             Some e \<Rightarrow> (hosts, Some (ReadHostsFile e))
           | None \<Rightarrow> (hosts, None)))"

section \<open>checkCertificate and worker\<close>

text \<open>
  Modelled from the spec: \<open>strings.Contains\<close> belongs to Go's standard library and is not
  part of the repository. The spec reads the test of line 70 as "the string contains no
  \<open>:\<close> character"; in general \<open>substr\<close> occurs in \<open>s\<close> as a contiguous block.
\<close>

fun Contains :: "string \<Rightarrow> string \<Rightarrow> bool" where
  "Contains [] substr = (substr = [])"
| "Contains (c # s) substr = (HasPrefix (c # s) substr \<or> Contains s substr)"

text \<open>
  What a call of \<open>checkCertificate\<close> finds outside the program: the answer of
  \<open>tls.Dial("tcp", addr, ...)\<close> for each address, either an error or the peer
  certificates of the connection state, and the reading of \<open>time.Now()\<close>. Every dial is
  taken to return: the program sets no timeout, and a dial that never returns is not
  modelled.
\<close>

record env =
  tlsDial :: "string \<Rightarrow> string + cert list"
  now :: Time

text \<open>Lines 69 to 72: the address that is dialed.\<close>

definition connectHost :: "string \<Rightarrow> string" where
  "connectHost host = (if \<not> Contains host '':'' then host @ '':443'' else host)"

text \<open>Line 80: \<open>certExpiry := time.Now().AddDate(0, 0, *days)\<close>.\<close>

definition certExpiry :: "env \<Rightarrow> int \<Rightarrow> Time" where
  "certExpiry e days = AddDate (now e) 0 0 days"

text \<open>Lines 82 to 86: the loop over the peer certificates, \<open>i\<close> the index of the head.\<close>

fun expiryLoop :: "Time \<Rightarrow> nat \<Rightarrow> cert list \<Rightarrow> error option" where
  "expiryLoop threshold i [] = None"
| "expiryLoop threshold i (c # cs) =
     (if After threshold (NotAfter c) then Some (CertExpires i (CommonName c) (NotAfter c))
      else expiryLoop threshold (Suc i) cs)"

text \<open>
  \<open>checkCertificate\<close> returns the result and the error, and the model adds the
  addresses it passed to \<open>tls.Dial\<close>, in order.
\<close>

definition checkCertificate :: "env \<Rightarrow> int \<Rightarrow> string \<Rightarrow> (result \<times> error option) \<times> string list" where
  "checkCertificate e days host =
     (let r = \<lparr>Hostname = host, Err = None\<rparr>;
          addr = connectHost host
      in case tlsDial e addr of
           Inl err \<Rightarrow> ((r, Some (TlsDial err)), [addr])
         | Inr certs \<Rightarrow> ((r, expiryLoop (certExpiry e days) 0 certs), [addr]))"

text \<open>The body of the loop of \<open>worker\<close>: the result it sends for one host.\<close>

definition worker_body :: "env \<Rightarrow> int \<Rightarrow> string \<Rightarrow> result" where
  "worker_body e days host =
     (let (r, err) = fst (checkCertificate e days host)
      in case err of Some x \<Rightarrow> r\<lparr>Err := Some x\<rparr> | None \<Rightarrow> r)"

section \<open>main\<close>

definition ExUsage :: int where
  "ExUsage = 64"

text \<open>The flags \<open>-hosts\<close>, \<open>-days\<close>, \<open>-concurrency\<close> and the positional arguments.\<close>

record config =
  hostsFile :: string
  days :: int
  concurrency :: int
  args :: "string list"

text \<open>
  A line written to the standard error: \<open>ErrorLine e\<close> is \<open>"error: %v\n"\<close> of line 100,
  \<open>HostErrorLine h e\<close> is \<open>"error: %s: %v\n"\<close> of line 127.
\<close>

datatype line = ErrorLine error | HostErrorLine string error

text \<open>
  Lines 94 to 104: the host list, or the line written before \<open>os.Exit(ExUsage)\<close>.
\<close>

definition startup :: "config \<Rightarrow> (string \<Rightarrow> fileAnswer) \<Rightarrow> line + string list" where
  "startup cfg fs =
     (let hosts = [] @ args cfg in
      if 0 < length (hostsFile cfg) then
        (case readHostsFile fs (hostsFile cfg) of
           (fileHosts, Some err) \<Rightarrow> Inl (ErrorLine err)
         | (fileHosts, None) \<Rightarrow> Inr (hosts @ fileHosts))
      else Inr hosts)"

text \<open>
  Lines 125 to 129, after the receive: the body of the consuming loop on the received
  result, acting on \<open>anyErrors\<close> and on the lines written so far.
\<close>

definition consume_one :: "result \<Rightarrow> bool \<times> line list \<Rightarrow> bool \<times> line list" where
  "consume_one r st =
     (case Err r of
        Some e \<Rightarrow> (True, snd st @ [HostErrorLine (Hostname r) e])
      | None \<Rightarrow> st)"

text \<open>
  Lines 123 to 130 as a sequential loop: \<open>rs\<close> are the values that the receives on
  \<open>results\<close> yield, in order. A receive with no value left blocks for ever (\<open>None\<close>).
  The loop returns the values it has not read, \<open>anyErrors\<close> and the lines written.
\<close>

function consume ::
  "nat \<Rightarrow> nat \<Rightarrow> result list \<Rightarrow> bool \<times> line list \<Rightarrow> (result list \<times> bool \<times> line list) option" where
  "consume n i rs st =
     (if i < n then
        (case rs of
           [] \<Rightarrow> None
         | r # rs' \<Rightarrow> consume n (Suc i) rs' (consume_one r st))
      else Some (rs, st))"
  by pat_completeness auto
termination
  by (relation "measure (\<lambda>(n, i, rs, st). n - i)") auto

subsection \<open>The goroutines\<close>

text \<open>
  A worker is blocked in \<open>range queue\<close> (\<open>Receiving\<close>), runs \<open>checkCertificate\<close> on a
  host it has received (\<open>Checking\<close>), is blocked in \<open>results <- r\<close> (\<open>Sending\<close>), or has
  left its loop because the queue is closed (\<open>Returned\<close>).
\<close>

datatype goroutine = Receiving | Checking string | Sending result | Returned

text \<open>
  The state of the program after line 120: \<open>pending\<close> are the hosts that the enqueuing
  goroutine has yet to send, \<open>closed\<close> says whether it has closed the queue, \<open>received\<close>
  are the results that main has read (their number is the \<open>i\<close> of its loop), \<open>anyErrors\<close>
  and \<open>stderr\<close> are what its loop has set and written.
\<close>

record pool =
  pending :: "string list"
  closed :: bool
  workers :: "goroutine list"
  received :: "result list"
  anyErrors :: bool
  stderr :: "line list"

text \<open>Lines 106 to 123: the loop of line 110 starts a worker for each \<open>i < *concurrency\<close>.\<close>

definition start :: "int \<Rightarrow> string list \<Rightarrow> pool" where
  "start c hosts =
     \<lparr>pending = hosts, closed = False, workers = replicate (nat c) Receiving,
      received = [], anyErrors = False, stderr = []\<rparr>"

text \<open>
  One step of one goroutine; \<open>d\<close> is \<open>*days\<close> and \<open>n\<close> is \<open>len(hosts)\<close>. Both channels are
  unbuffered, so a send and its receive are one step.
  \<^item> \<open>send_host\<close>: \<open>queue <- host\<close> of line 117 meets the receive of line 55 in worker \<open>k\<close>.
  \<^item> \<open>close_queue\<close>: line 119, once every host is sent.
  \<^item> \<open>worker_return\<close>: the \<open>range\<close> of line 55 ends on the closed queue.
  \<^item> \<open>check\<close>: lines 56 to 59, in whatever environment the call finds.
  \<^item> \<open>receive_result\<close>: \<open>results <- r\<close> of line 60 meets \<open>r := <-results\<close> of line 125, which
    main executes while \<open>i < len(hosts)\<close>, followed by lines 126 to 129.
\<close>

inductive step :: "int \<Rightarrow> nat \<Rightarrow> pool \<Rightarrow> pool \<Rightarrow> bool" for d :: int and n :: nat where
  send_host:
    "pending s = h # hs \<Longrightarrow> k < length (workers s) \<Longrightarrow> workers s ! k = Receiving \<Longrightarrow>
     step d n s (s\<lparr>pending := hs, workers := (workers s)[k := Checking h]\<rparr>)"
| close_queue:
    "pending s = [] \<Longrightarrow> \<not> closed s \<Longrightarrow> step d n s (s\<lparr>closed := True\<rparr>)"
| worker_return:
    "closed s \<Longrightarrow> k < length (workers s) \<Longrightarrow> workers s ! k = Receiving \<Longrightarrow>
     step d n s (s\<lparr>workers := (workers s)[k := Returned]\<rparr>)"
| check:
    "k < length (workers s) \<Longrightarrow> workers s ! k = Checking h \<Longrightarrow>
     step d n s (s\<lparr>workers := (workers s)[k := Sending (worker_body e d h)]\<rparr>)"
| receive_result:
    "k < length (workers s) \<Longrightarrow> workers s ! k = Sending r \<Longrightarrow> length (received s) < n \<Longrightarrow>
     step d n s
       (s\<lparr>workers := (workers s)[k := Receiving],
          received := received s @ [r],
          anyErrors := fst (consume_one r (anyErrors s, stderr s)),
          stderr := snd (consume_one r (anyErrors s, stderr s))\<rparr>)"

text \<open>
  A run of the program that ends by itself: its exit status, the lines on the standard
  error, and the results that main has read. \<open>usage\<close> is the exit of line 101;
  \<open>checked\<close> is the end of main after its loop has read \<open>len(hosts)\<close> results, with
  \<open>os.Exit(1)\<close> of line 133 or the return from main (status 0). The end of main ends
  the other goroutines. A program whose goroutines are all blocked for ever has no run
  here: it is the Go runtime that ends it.
\<close>

record run =
  status :: int
  errOutput :: "line list"
  outcomes :: "result list"

inductive main :: "config \<Rightarrow> (string \<Rightarrow> fileAnswer) \<Rightarrow> run \<Rightarrow> bool" where
  usage:
    "startup cfg fs = Inl l \<Longrightarrow>
     main cfg fs \<lparr>status = ExUsage, errOutput = [l], outcomes = []\<rparr>"
| checked:
    "startup cfg fs = Inr hosts \<Longrightarrow>
     (step (days cfg) (length hosts))\<^sup>*\<^sup>* (start (concurrency cfg) hosts) s \<Longrightarrow>
     length (received s) = length hosts \<Longrightarrow>
     main cfg fs \<lparr>status = (if anyErrors s then 1 else 0), errOutput = stderr s,
                  outcomes = received s\<rparr>"

text \<open>The hosts that a worker holds: the one it checks, or the one of the result it sends.\<close>

fun holding :: "goroutine \<Rightarrow> string multiset" where
  "holding (Checking h) = {#h#}"
| "holding (Sending r) = {#Hostname r#}"
| "holding Receiving = {#}"
| "holding Returned = {#}"

text \<open>A measure that every step decreases.\<close>

fun weight :: "goroutine \<Rightarrow> nat" where
  "weight (Checking h) = 3"
| "weight (Sending r) = 2"
| "weight Receiving = 1"
| "weight Returned = 0"

definition fuel :: "pool \<Rightarrow> nat" where
  "fuel s = 3 * length (pending s) + (if closed s then 0 else 1) + sum_list (map weight (workers s))"

subsection \<open>The report of the aggregator\<close>

text \<open>
  The report that the spec asks of the aggregator, in its words: one failure (host name
  and error detail) for each outcome with a non-empty error, in the order of the outcomes;
  and whether at least one outcome has a non-empty error.
\<close>

definition failure_lines :: "result list \<Rightarrow> line list" where
  "failure_lines rs =
     concat (map (\<lambda>r. case Err r of Some e \<Rightarrow> [HostErrorLine (Hostname r) e] | None \<Rightarrow> []) rs)"

definition any_failed :: "result list \<Rightarrow> bool" where
  "any_failed rs = list_ex (\<lambda>r. Err r \<noteq> None) rs"

subsection \<open>White space\<close>

text \<open>A string of white space only: a sequence of encodings of white space.\<close>

definition blank :: "string \<Rightarrow> bool" where
  "blank s = (\<exists>ws. set ws \<subseteq> set whiteSpace \<and> s = concat ws)"

text \<open>No encoding is the beginning of another one.\<close>

definition prefix_free :: "string list \<Rightarrow> bool" where
  "prefix_free W = list_all (\<lambda>w. list_all (\<lambda>w'. HasPrefix w w' \<longrightarrow> w = w') W) W"

subsection \<open>Invariants of the goroutines\<close>

text \<open>Every host is with the enqueuing goroutine, with a worker, or in a result read by main.\<close>

definition conserved :: "string list \<Rightarrow> pool \<Rightarrow> bool" where
  "conserved hosts s =
     (mset (pending s) + sum_list (map holding (workers s)) + mset (map Hostname (received s))
        = mset hosts)"

text \<open>The queue is closed only once every host is sent, and a worker returns only then.\<close>

definition queue_ok :: "pool \<Rightarrow> bool" where
  "queue_ok s = ((closed s \<longrightarrow> pending s = []) \<and> (Returned \<in> set (workers s) \<longrightarrow> closed s))"

text \<open>What main has set and written agrees with what it has read.\<close>

definition tallied :: "pool \<Rightarrow> bool" where
  "tallied s = (anyErrors s = any_failed (received s) \<and> stderr s = failure_lines (received s))"

subsection \<open>Example values\<close>

definition t0 :: Time where
  "t0 = \<lparr>year = 2026, month = 1, day = 15, hour = 12, minute = 0, second = 0, nsec = 0,
          loc = UTC\<rparr>"

text \<open>A file system without any file.\<close>

definition no_file :: "string \<Rightarrow> fileAnswer" where
  "no_file = (\<lambda>_. NotExist)"

text \<open>
  A location with a change of offset: one hour east of UTC until the wall clock reads
  2026-03-29 02:00:00, two hours from then on.
\<close>

definition cet :: Location where
  "cet w = (if w < 1774749600 then 3600 else 7200)"

text \<open>A threshold, a certificate that expires at that very instant, and one that expires
  a second earlier.\<close>

definition t_threshold :: Time where
  "t_threshold = \<lparr>year = 2026, month = 11, day = 30, hour = 12, minute = 0, second = 0, nsec = 0,
                   loc = UTC\<rparr>"

definition cert_at :: cert where
  "cert_at = \<lparr>NotAfter = t_threshold, CommonName = ''leaf.example''\<rparr>"

definition cert_before :: cert where
  "cert_before =
     \<lparr>NotAfter = \<lparr>year = 2026, month = 11, day = 30, hour = 11, minute = 59, second = 59,
                   nsec = 0, loc = UTC\<rparr>,
      CommonName = ''ca.example''\<rparr>"

section \<open>Properties\<close>

lemma sum_list_map_update:
  "k < length ws \<Longrightarrow>
   sum_list (map f (ws[k := w])) + f (ws ! k) = sum_list (map f ws) + (f w :: 'a::comm_monoid_add)"
proof (induction ws arbitrary: k)
  case Nil
  then show ?case by simp
next
  case (Cons a ws)
  show ?case
  proof (cases k)
    case 0
    then show ?thesis by (simp add: ac_simps)
  next
    case (Suc j)
    with Cons.prems have "j < length ws" by simp
    from Cons.IH [OF this] Suc show ?thesis by (simp add: ac_simps)
  qed
qed

lemma Hostname_worker_body: "Hostname (worker_body e d h) = h"
  by (simp add: worker_body_def checkCertificate_def Let_def split: sum.splits option.splits)

lemma step_fuel: "step d n s s' \<Longrightarrow> fuel s' < fuel s"
proof (induction rule: step.induct)
  case (send_host s h hs k)
  from sum_list_map_update [OF send_host(2), of weight "Checking h"] send_host(3)
  show ?case using send_host(1) by (simp add: fuel_def)
next
  case (close_queue s)
  then show ?case by (simp add: fuel_def)
next
  case (worker_return s k)
  from sum_list_map_update [OF worker_return(2), of weight Returned] worker_return(3)
  show ?case by (simp add: fuel_def)
next
  case (check k s h e)
  from sum_list_map_update [OF check(1), of weight "Sending (worker_body e d h)"] check(2)
  show ?case by (simp add: fuel_def)
next
  case (receive_result k s r)
  from sum_list_map_update [OF receive_result(1), of weight Receiving] receive_result(2)
  show ?case by (simp add: fuel_def)
qed

lemma wf_step: "wfP (\<lambda>s' s. step d n s s')"
  by (rule wfp_if_convertible_to_nat [where f = fuel]) (rule step_fuel)

lemma step_conserved: "step d n s s' \<Longrightarrow> conserved hosts s \<Longrightarrow> conserved hosts s'"
proof (induction rule: step.induct)
  case (send_host s h hs k)
  from sum_list_map_update [OF send_host(2), of holding "Checking h"] send_host(3)
  have "sum_list (map holding ((workers s)[k := Checking h])) = sum_list (map holding (workers s)) + {#h#}"
    by simp
  with send_host(1,4) show ?case by (simp add: conserved_def)
next
  case (close_queue s)
  then show ?case by (simp add: conserved_def)
next
  case (worker_return s k)
  from sum_list_map_update [OF worker_return(2), of holding Returned] worker_return(3)
  have "sum_list (map holding ((workers s)[k := Returned])) = sum_list (map holding (workers s))"
    by simp
  with worker_return(4) show ?case by (simp add: conserved_def)
next
  case (check k s h e)
  from sum_list_map_update [OF check(1), of holding "Sending (worker_body e d h)"] check(2)
  have "sum_list (map holding ((workers s)[k := Sending (worker_body e d h)]))
          = sum_list (map holding (workers s))"
    by (simp add: Hostname_worker_body)
  with check(3) show ?case by (simp add: conserved_def)
next
  case (receive_result k s r)
  from sum_list_map_update [OF receive_result(1), of holding Receiving] receive_result(2)
  have "sum_list (map holding (workers s))
          = sum_list (map holding ((workers s)[k := Receiving])) + {#Hostname r#}"
    by simp
  with receive_result(4) show ?case by (simp add: conserved_def ac_simps)
qed

lemma step_queue_ok: "step d n s s' \<Longrightarrow> queue_ok s \<Longrightarrow> queue_ok s'"
proof (induction rule: step.induct)
  case (send_host s h hs k)
  then show ?case by (auto simp: queue_ok_def dest!: set_update_subset_insert [THEN subsetD])
next
  case (close_queue s)
  then show ?case by (simp add: queue_ok_def)
next
  case (worker_return s k)
  then show ?case by (simp add: queue_ok_def)
next
  case (check k s h e)
  then show ?case by (auto simp: queue_ok_def dest!: set_update_subset_insert [THEN subsetD])
next
  case (receive_result k s r)
  then show ?case by (auto simp: queue_ok_def dest!: set_update_subset_insert [THEN subsetD])
qed

lemma step_workers_length: "step d n s s' \<Longrightarrow> length (workers s') = length (workers s)"
  by (induction rule: step.induct) simp_all

lemma step_received_le: "step d n s s' \<Longrightarrow> length (received s) \<le> n \<Longrightarrow> length (received s') \<le> n"
  by (induction rule: step.induct) simp_all

lemma sum_list_replicate_empty: "sum_list (replicate m ({#} :: 'a multiset)) = {#}"
  by (induction m) simp_all

lemma start_conserved: "conserved hosts (start c hosts)"
  by (simp add: conserved_def start_def sum_list_replicate_empty)

lemma start_queue_ok: "queue_ok (start c hosts)"
  by (simp add: queue_ok_def start_def)

lemma steps_conserved:
  "(step d n)\<^sup>*\<^sup>* s s' \<Longrightarrow> conserved hosts s \<Longrightarrow> conserved hosts s'"
  by (induction rule: rtranclp_induct) (auto intro: step_conserved)

lemma steps_queue_ok: "(step d n)\<^sup>*\<^sup>* s s' \<Longrightarrow> queue_ok s \<Longrightarrow> queue_ok s'"
  by (induction rule: rtranclp_induct) (auto intro: step_queue_ok)

lemma steps_workers_length: "(step d n)\<^sup>*\<^sup>* s s' \<Longrightarrow> length (workers s') = length (workers s)"
  by (induction rule: rtranclp_induct) (auto dest: step_workers_length)

lemma steps_received_le:
  "(step d n)\<^sup>*\<^sup>* s s' \<Longrightarrow> length (received s) \<le> n \<Longrightarrow> length (received s') \<le> n"
  by (induction rule: rtranclp_induct) (auto dest: step_received_le)

lemma holding_empty_iff: "holding w = {#} \<longleftrightarrow> w = Receiving \<or> w = Returned"
  by (cases w) simp_all

lemma sum_list_holding_empty:
  "sum_list (map holding ws) = {#} \<longleftrightarrow> (\<forall>w \<in> set ws. w = Receiving \<or> w = Returned)"
  by (induction ws) (auto simp: holding_empty_iff)

text \<open>Progress: while main waits for a result, some goroutine can move.\<close>

lemma progress:
  assumes cons: "conserved hosts s" and ok: "queue_ok s"
    and ws: "workers s \<noteq> []" and less: "length (received s) < length hosts"
  shows "\<exists>s'. step d (length hosts) s s'"
proof (cases "\<exists>k < length (workers s). \<exists>h. workers s ! k = Checking h")
  case True
  then obtain k h where "k < length (workers s)" "workers s ! k = Checking h" by blast
  then show ?thesis by (blast intro: step.check)
next
  case noCheck: False
  show ?thesis
  proof (cases "\<exists>k < length (workers s). \<exists>r. workers s ! k = Sending r")
    case True
    then obtain k r where "k < length (workers s)" "workers s ! k = Sending r" by blast
    with less show ?thesis by (blast intro: step.receive_result)
  next
    case noSend: False
    have idle: "\<forall>w \<in> set (workers s). w = Receiving \<or> w = Returned"
    proof
      fix w assume "w \<in> set (workers s)"
      then obtain k where k: "k < length (workers s)" "workers s ! k = w"
        by (auto simp: in_set_conv_nth)
      with noCheck noSend show "w = Receiving \<or> w = Returned" by (cases w) auto
    qed
    then have "sum_list (map holding (workers s)) = {#}"
      by (simp add: sum_list_holding_empty)
    with cons have "mset (pending s) + mset (map Hostname (received s)) = mset hosts"
      by (simp add: conserved_def)
    then have "length (pending s) + length (received s) = length hosts"
      by (metis size_mset size_union length_map)
    with less obtain h hs where p: "pending s = h # hs"
      by (cases "pending s") auto
    with ok have "\<not> closed s" by (auto simp: queue_ok_def)
    with ok have "Returned \<notin> set (workers s)" by (auto simp: queue_ok_def)
    with idle have "\<forall>w \<in> set (workers s). w = Receiving" by blast
    moreover from ws have "0 < length (workers s)" by simp
    ultimately have "workers s ! 0 = Receiving" by (metis nth_mem)
    with p \<open>0 < length (workers s)\<close> show ?thesis by (blast intro: step.send_host)
  qed
qed

lemma finished_all:
  assumes cons: "conserved hosts s" and len: "length (received s) = length hosts"
  shows "mset (map Hostname (received s)) = mset hosts"
proof -
  let ?R = "mset (map Hostname (received s))"
  let ?X = "mset (pending s) + sum_list (map holding (workers s))"
  from cons have eq: "?X + ?R = mset hosts" by (simp add: conserved_def ac_simps)
  then have "size ?X + size ?R = size (mset hosts)" by (metis size_union)
  with len have "size ?X = 0" by simp
  then have "?X = {#}" by simp
  with eq show ?thesis by simp
qed

lemma conserved_subset:
  assumes cons: "conserved hosts s"
  shows "mset (map Hostname (received s)) \<subseteq># mset hosts"
proof -
  from cons have "mset hosts = mset (map Hostname (received s)) + (mset (pending s) + sum_list (map holding (workers s)))"
    by (simp add: conserved_def ac_simps)
  then show ?thesis by (metis mset_subset_eq_add_left)
qed

text \<open>Every run can be completed.\<close>

lemma completes:
  assumes "conserved hosts s" "queue_ok s" "workers s \<noteq> []" "length (received s) \<le> length hosts"
  shows "\<exists>s'. (step d (length hosts))\<^sup>*\<^sup>* s s' \<and> length (received s') = length hosts"
  using assms
proof (induction "fuel s" arbitrary: s rule: less_induct)
  case less
  show ?case
  proof (cases "length (received s) = length hosts")
    case True
    then show ?thesis by blast
  next
    case False
    with less.prems have lt: "length (received s) < length hosts" by simp
    from progress [OF less.prems(1,2,3) lt]
    obtain s1 where s1: "step d (length hosts) s s1" by blast
    have "\<exists>s'. (step d (length hosts))\<^sup>*\<^sup>* s1 s' \<and> length (received s') = length hosts"
    proof (rule less.hyps)
      show "fuel s1 < fuel s" using s1 by (rule step_fuel)
      show "conserved hosts s1" using s1 less.prems(1) by (rule step_conserved)
      show "queue_ok s1" using s1 less.prems(2) by (rule step_queue_ok)
      show "workers s1 \<noteq> []" using step_workers_length [OF s1] less.prems(3) by auto
      show "length (received s1) \<le> length hosts" using s1 less.prems(4) by (rule step_received_le)
    qed
    then obtain s' where "(step d (length hosts))\<^sup>*\<^sup>* s1 s'" "length (received s') = length hosts"
      by blast
    with s1 show ?thesis by (blast intro: converse_rtranclp_into_rtranclp)
  qed
qed

text \<open>
  Claim C1. For a list of N >= 1 hosts and C >= 1 workers: no run of the goroutines is
  infinite; from the start there is a run in which main reads N results; in every state
  of every run main has read at most N results, their host names are a sub-multiset of the
  input and drawn from the input set; as long as main has read fewer than N results some
  goroutine can move (no deadlock); and once main has read N results, the multiset of
  their host names is the multiset of the input: no host is lost, none is duplicated.
\<close>

theorem dispatcher_one_outcome_per_host:
  assumes "1 \<le> length hosts" and "1 \<le> c"
  shows "wfP (\<lambda>s' s. step d (length hosts) s s')
    \<and> (\<exists>s. (step d (length hosts))\<^sup>*\<^sup>* (start c hosts) s \<and> length (received s) = length hosts)
    \<and> (\<forall>s. (step d (length hosts))\<^sup>*\<^sup>* (start c hosts) s \<longrightarrow>
          length (received s) \<le> length hosts
        \<and> mset (map Hostname (received s)) \<subseteq># mset hosts
        \<and> set (map Hostname (received s)) \<subseteq> set hosts
        \<and> (length (received s) < length hosts \<longrightarrow> (\<exists>s'. step d (length hosts) s s'))
        \<and> (length (received s) = length hosts \<longrightarrow>
             mset (map Hostname (received s)) = mset hosts))"
proof (intro conjI allI impI)
  show "wfP (\<lambda>s' s. step d (length hosts) s s')" by (rule wf_step)
next
  have w0: "workers (start c hosts) \<noteq> []" using assms(2) by (simp add: start_def)
  have "length (received (start c hosts)) \<le> length hosts" by (simp add: start_def)
  from completes [OF start_conserved start_queue_ok w0 this]
  show "\<exists>s. (step d (length hosts))\<^sup>*\<^sup>* (start c hosts) s \<and> length (received s) = length hosts" .
next
  fix s assume run: "(step d (length hosts))\<^sup>*\<^sup>* (start c hosts) s"
  have cons: "conserved hosts s" using run start_conserved by (rule steps_conserved)
  have ok: "queue_ok s" using run start_queue_ok by (rule steps_queue_ok)
  have ws: "workers s \<noteq> []"
    using steps_workers_length [OF run] assms(2) by (auto simp: start_def)
  show "length (received s) \<le> length hosts"
    using run by (rule steps_received_le) (simp add: start_def)
  show sub: "mset (map Hostname (received s)) \<subseteq># mset hosts"
    using cons by (rule conserved_subset)
  show "set (map Hostname (received s)) \<subseteq> set hosts"
    using set_mset_mono [OF sub] by simp
  { assume "length (received s) < length hosts"
    with cons ok ws show "\<exists>s'. step d (length hosts) s s'" by (rule progress) }
  { assume "length (received s) = length hosts"
    with cons show "mset (map Hostname (received s)) = mset hosts" by (rule finished_all) }
qed

lemma one_host_run:
  "(step 30 1)\<^sup>*\<^sup>* (start 1 [''a.example''])
     \<lparr>pending = [], closed = False, workers = [Receiving],
      received = [\<lparr>Hostname = ''a.example'', Err = Some (TlsDial ''refused'')\<rparr>],
      anyErrors = True,
      stderr = [HostErrorLine ''a.example'' (TlsDial ''refused'')]\<rparr>"
proof -
  let ?e = "\<lparr>tlsDial = (\<lambda>_. Inl ''refused''), now = t0\<rparr>"
  let ?r = "\<lparr>Hostname = ''a.example'', Err = Some (TlsDial ''refused'')\<rparr>"
  let ?s0 = "start 1 [''a.example'']"
  let ?s1 = "\<lparr>pending = [], closed = False, workers = [Checking ''a.example''],
      received = [], anyErrors = False, stderr = []\<rparr>"
  let ?s2 = "\<lparr>pending = [], closed = False, workers = [Sending ?r],
      received = [], anyErrors = False, stderr = []\<rparr>"
  let ?s3 = "\<lparr>pending = [], closed = False, workers = [Receiving],
      received = [?r], anyErrors = True,
      stderr = [HostErrorLine ''a.example'' (TlsDial ''refused'')]\<rparr>"
  have wb: "worker_body ?e 30 ''a.example'' = ?r"
    by (simp add: worker_body_def checkCertificate_def)
  have "step 30 1 ?s0 ?s1"
    using step.send_host [of ?s0 "''a.example''" "[]" 0 30 1] by (simp add: start_def)
  moreover have "step 30 1 ?s1 ?s2"
    using step.check [of 0 ?s1 "''a.example''" 30 1 ?e] by (simp add: wb)
  moreover have "step 30 1 ?s2 ?s3"
    using step.receive_result [of 0 ?s2 ?r 1 30] by (simp add: consume_one_def)
  ultimately show ?thesis by (meson rtranclp.rtrancl_into_rtrancl rtranclp.rtrancl_refl)
qed

text \<open>
  The run of one worker on one host whose dial is refused.
\<close>

theorem dispatcher_one_outcome_per_host_witness:
  "1 \<le> length [''a.example''] \<and> (1::int) \<le> 1
   \<and> (step 30 1)\<^sup>*\<^sup>* (start 1 [''a.example''])
     \<lparr>pending = [], closed = False, workers = [Receiving],
      received = [\<lparr>Hostname = ''a.example'', Err = Some (TlsDial ''refused'')\<rparr>],
      anyErrors = True,
      stderr = [HostErrorLine ''a.example'' (TlsDial ''refused'')]\<rparr>
   \<and> mset (map Hostname [\<lparr>Hostname = ''a.example'', Err = Some (TlsDial ''refused'')\<rparr>])
       = mset [''a.example'']"
  using dispatcher_one_outcome_per_host [of "[''a.example'']" 1 30] one_host_run
  by simp

lemma consume_one_eq:
  "consume_one r (a, out) = (a \<or> Err r \<noteq> None, out @ failure_lines [r])"
  by (cases "Err r") (simp_all add: consume_one_def failure_lines_def)

lemma failure_lines_append: "failure_lines (xs @ ys) = failure_lines xs @ failure_lines ys"
  by (simp add: failure_lines_def)

lemma failure_lines_Cons: "failure_lines (x # xs) = failure_lines [x] @ failure_lines xs"
  by (simp add: failure_lines_def)

lemma consume_general:
  "n - i \<le> length rs \<Longrightarrow>
   consume n i rs st =
     Some (drop (n - i) rs, fst st \<or> any_failed (take (n - i) rs),
           snd st @ failure_lines (take (n - i) rs))"
proof (induction rs arbitrary: i st)
  case Nil
  then have "\<not> i < n" by simp
  then show ?case
    by (subst consume.simps) (simp add: any_failed_def failure_lines_def)
next
  case (Cons r rs)
  show ?case
  proof (cases "i < n")
    case False
    then show ?thesis
      by (subst consume.simps) (simp add: any_failed_def failure_lines_def)
  next
    case True
    then have d: "n - i = Suc (n - Suc i)" by simp
    with Cons.prems have le: "n - Suc i \<le> length rs" by simp
    obtain a out where st: "st = (a, out)" by (cases st)
    have "consume n i (r # rs) st = consume n (Suc i) rs (consume_one r st)"
      using True by (subst consume.simps) simp
    also have "\<dots> = Some (drop (n - Suc i) rs,
          fst (consume_one r st) \<or> any_failed (take (n - Suc i) rs),
          snd (consume_one r st) @ failure_lines (take (n - Suc i) rs))"
      using le by (rule Cons.IH)
    also have "\<dots> = Some (drop (n - i) (r # rs), fst st \<or> any_failed (take (n - i) (r # rs)),
           snd st @ failure_lines (take (n - i) (r # rs)))"
      unfolding d st
      by (simp add: consume_one_eq any_failed_def failure_lines_Cons [of r "take (n - Suc i) rs"])
    finally show ?thesis .
  qed
qed

text \<open>The pool: what main has set and written agrees with what it has read.\<close>

lemma step_tallied: "step d n s s' \<Longrightarrow> tallied s \<Longrightarrow> tallied s'"
  by (induction rule: step.induct)
     (auto simp: tallied_def consume_one_eq failure_lines_append any_failed_def)

lemma steps_tallied: "(step d n)\<^sup>*\<^sup>* s s' \<Longrightarrow> tallied s \<Longrightarrow> tallied s'"
  by (induction rule: rtranclp_induct) (auto intro: step_tallied)

lemma start_tallied: "tallied (start c hosts)"
  by (simp add: tallied_def start_def any_failed_def failure_lines_def)

text \<open>
  Claim C4. Given the \<open>n\<close> results \<open>rs\<close> (followed by any others), the consuming loop of
  main reads exactly these \<open>n\<close>, whatever errors they carry, and leaves the others; it
  sets \<open>anyErrors\<close> if and only if one of the results read has an error; and it writes
  exactly one line, host name and error, for each result read that has an error. The
  same holds of main among the goroutines: in every state of every run, \<open>anyErrors\<close> and
  the lines written are those of the results read so far.
\<close>

theorem aggregator_drains_all:
  assumes "length rs = n"
  shows "consume n 0 rs (False, []) = Some ([], any_failed rs, failure_lines rs)
    \<and> (\<forall>others. consume n 0 (rs @ others) (False, []) = Some (others, any_failed rs, failure_lines rs))
    \<and> (any_failed rs \<longleftrightarrow> (\<exists>r \<in> set rs. Err r \<noteq> None))
    \<and> (\<forall>h e. HostErrorLine h e \<in> set (failure_lines rs)
          \<longleftrightarrow> (\<exists>r \<in> set rs. Hostname r = h \<and> Err r = Some e))
    \<and> length (failure_lines rs) = length (filter (\<lambda>r. Err r \<noteq> None) rs)
    \<and> (\<forall>d c hosts s. (step d (length hosts))\<^sup>*\<^sup>* (start c hosts) s \<longrightarrow>
          anyErrors s = any_failed (received s) \<and> stderr s = failure_lines (received s))"
proof -
  have a: "consume n 0 rs (False, []) = Some ([], any_failed rs, failure_lines rs)"
    using consume_general [of n 0 rs "(False, [])"] assms by simp
  have b: "\<forall>others. consume n 0 (rs @ others) (False, [])
             = Some (others, any_failed rs, failure_lines rs)"
    using consume_general [of n 0 "rs @ _" "(False, [])"] assms by simp
  have c: "any_failed rs \<longleftrightarrow> (\<exists>r \<in> set rs. Err r \<noteq> None)"
    by (simp add: any_failed_def list_ex_iff)
  have d: "\<forall>h e. HostErrorLine h e \<in> set (failure_lines rs)
          \<longleftrightarrow> (\<exists>r \<in> set rs. Hostname r = h \<and> Err r = Some e)"
    by (induction rs) (auto simp: failure_lines_def split: option.splits)
  have e: "length (failure_lines rs) = length (filter (\<lambda>r. Err r \<noteq> None) rs)"
    by (induction rs) (auto simp: failure_lines_def split: option.splits)
  have f: "\<forall>d c hosts s. (step d (length hosts))\<^sup>*\<^sup>* (start c hosts) s \<longrightarrow>
          anyErrors s = any_failed (received s) \<and> stderr s = failure_lines (received s)"
    using steps_tallied [OF _ start_tallied] by (simp add: tallied_def)
  from a b c d e f show ?thesis by (intro conjI)
qed

text \<open>
  The outcomes fail(A), pass(B), fail(C): both A and C are reported.
\<close>

theorem aggregator_drains_all_witness:
  "consume 3 0
     [\<lparr>Hostname = ''A'', Err = Some (TlsDial ''refused'')\<rparr>,
      \<lparr>Hostname = ''B'', Err = None\<rparr>,
      \<lparr>Hostname = ''C'', Err = Some (TlsDial ''timeout'')\<rparr>] (False, [])
   = Some ([], True, [HostErrorLine ''A'' (TlsDial ''refused''), HostErrorLine ''C'' (TlsDial ''timeout'')])"
  using aggregator_drains_all [of
     "[\<lparr>Hostname = ''A'', Err = Some (TlsDial ''refused'')\<rparr>,
      \<lparr>Hostname = ''B'', Err = None\<rparr>,
      \<lparr>Hostname = ''C'', Err = Some (TlsDial ''timeout'')\<rparr>]" 3]
  by (simp add: any_failed_def failure_lines_def)


lemma step_no_workers:
  "step d n s s' \<Longrightarrow> workers s = [] \<Longrightarrow>
   workers s' = [] \<and> pending s' = pending s \<and> received s' = received s
   \<and> anyErrors s' = anyErrors s \<and> stderr s' = stderr s"
  by (induction rule: step.induct) simp_all

lemma steps_no_workers:
  "(step d n)\<^sup>*\<^sup>* s s' \<Longrightarrow> workers s = [] \<Longrightarrow>
   workers s' = [] \<and> pending s' = pending s \<and> received s' = received s
   \<and> anyErrors s' = anyErrors s \<and> stderr s' = stderr s"
proof (induction rule: rtranclp_induct)
  case base
  then show ?case by simp
next
  case (step y z)
  then show ?case using step_no_workers [of d n y z] by simp
qed

lemma startup_concurrency: "startup (cfg\<lparr>concurrency := c\<rparr>) fs = startup cfg fs"
  by (simp add: startup_def Let_def cong del: if_weak_cong)

text \<open>
  Claim C2, as amended. With \<open>*concurrency <= 0\<close> the program raises no error for it: the
  start-up (host list or usage exit) does not depend on the concurrency at all; no worker
  is started, so no host is ever handed to a worker (none is dialed) and main reads no
  result; and a run that ends by itself is either the usage exit for the hosts file or,
  with an empty host list, the exit with status 0.
\<close>

theorem nonpositive_concurrency:
  assumes "concurrency cfg \<le> 0"
  shows "(\<forall>c. startup (cfg\<lparr>concurrency := c\<rparr>) fs = startup cfg fs)
    \<and> (\<forall>hosts s. startup cfg fs = Inr hosts \<longrightarrow>
          (step (days cfg) (length hosts))\<^sup>*\<^sup>* (start (concurrency cfg) hosts) s \<longrightarrow>
          workers s = [] \<and> pending s = hosts \<and> received s = [])
    \<and> (\<forall>r. main cfg fs r \<longrightarrow>
          (status r = ExUsage \<and> (\<exists>l. startup cfg fs = Inl l))
        \<or> (status r = 0 \<and> startup cfg fs = Inr [] \<and> outcomes r = [] \<and> errOutput r = []))"
proof -
  have a: "\<forall>c. startup (cfg\<lparr>concurrency := c\<rparr>) fs = startup cfg fs"
    by (simp add: startup_concurrency)
  have b: "\<forall>hosts s. startup cfg fs = Inr hosts \<longrightarrow>
          (step (days cfg) (length hosts))\<^sup>*\<^sup>* (start (concurrency cfg) hosts) s \<longrightarrow>
          workers s = [] \<and> pending s = hosts \<and> received s = []"
  proof (intro allI impI)
    fix hosts s
    assume "startup cfg fs = Inr hosts"
      and "(step (days cfg) (length hosts))\<^sup>*\<^sup>* (start (concurrency cfg) hosts) s"
    from steps_no_workers [OF this(2)] assms
    show "workers s = [] \<and> pending s = hosts \<and> received s = []"
      by (simp add: start_def)
  qed
  have c: "\<forall>r. main cfg fs r \<longrightarrow>
          (status r = ExUsage \<and> (\<exists>l. startup cfg fs = Inl l))
        \<or> (status r = 0 \<and> startup cfg fs = Inr [] \<and> outcomes r = [] \<and> errOutput r = [])"
  proof (intro allI impI)
    fix r assume "main cfg fs r"
    then show "(status r = ExUsage \<and> (\<exists>l. startup cfg fs = Inl l))
        \<or> (status r = 0 \<and> startup cfg fs = Inr [] \<and> outcomes r = [] \<and> errOutput r = [])"
    proof (cases rule: main.cases)
      case (usage l)
      then show ?thesis by simp
    next
      case (checked hosts s)
      from steps_no_workers [OF checked(3)] assms
      have "received s = []" "anyErrors s = False" "stderr s = []"
        by (simp_all add: start_def)
      with checked show ?thesis by simp
    qed
  qed
  from a b c show ?thesis by (intro conjI)
qed

lemma main_no_hosts:
  "main \<lparr>hostsFile = [], days = 30, concurrency = 0, args = []\<rparr> no_file
        \<lparr>status = 0, errOutput = [], outcomes = []\<rparr>"
proof -
  let ?cfg = "\<lparr>hostsFile = [], days = 30, concurrency = 0, args = []\<rparr>"
  have "startup ?cfg no_file = Inr []" by (simp add: startup_def)
  from main.checked [OF this, of "start 0 []"]
  show ?thesis by (simp add: start_def)
qed

text \<open>
  Concurrency 0 and no host.
\<close>

theorem nonpositive_concurrency_witness:
  "concurrency \<lparr>hostsFile = [], days = 30, concurrency = 0, args = []\<rparr> \<le> 0
   \<and> main \<lparr>hostsFile = [], days = 30, concurrency = 0, args = []\<rparr> no_file
        \<lparr>status = 0, errOutput = [], outcomes = []\<rparr>
   \<and> startup \<lparr>hostsFile = [], days = 30, concurrency = 0, args = []\<rparr> no_file = Inr []"
  using nonpositive_concurrency [of "\<lparr>hostsFile = [], days = 30, concurrency = 0, args = []\<rparr>" no_file]
    main_no_hosts
  by (simp add: startup_def)

text \<open>
  Claim C2 as stated fails. With concurrency 0 and the host \<open>example.com\<close> the start-up
  raises nothing and returns the host list, so the dispatch begins; with concurrency 0 and
  no host the program ends with status 0, which is not the usage status.
\<close>

theorem fail_fast_counterexample:
  "concurrency \<lparr>hostsFile = [], days = 30, concurrency = 0, args = [''example.com'']\<rparr> \<le> 0
   \<and> startup \<lparr>hostsFile = [], days = 30, concurrency = 0, args = [''example.com'']\<rparr> no_file
       = Inr [''example.com'']
   \<and> main \<lparr>hostsFile = [], days = 30, concurrency = 0, args = []\<rparr> no_file
        \<lparr>status = 0, errOutput = [], outcomes = []\<rparr>
   \<and> 0 \<noteq> ExUsage"
  using main_no_hosts by (simp add: startup_def ExUsage_def)


lemma expiryLoop_None:
  "expiryLoop T i cs = None \<longleftrightarrow> (\<forall>c \<in> set cs. \<not> instant (NotAfter c) < instant T)"
  by (induction cs arbitrary: i) (simp_all add: After_def)

lemma expiryLoop_Some:
  "expiryLoop T i cs = Some x \<longleftrightarrow>
     (\<exists>k < length cs. instant (NotAfter (cs ! k)) < instant T
        \<and> (\<forall>j < k. \<not> instant (NotAfter (cs ! j)) < instant T)
        \<and> x = CertExpires (i + k) (CommonName (cs ! k)) (NotAfter (cs ! k)))"
proof (induction cs arbitrary: i)
  case Nil
  then show ?case by simp
next
  case (Cons c cs)
  show ?case
  proof (cases "instant (NotAfter c) < instant T")
    case True
    have "(\<exists>k < length (c # cs). instant (NotAfter ((c # cs) ! k)) < instant T
        \<and> (\<forall>j < k. \<not> instant (NotAfter ((c # cs) ! j)) < instant T)
        \<and> x = CertExpires (i + k) (CommonName ((c # cs) ! k)) (NotAfter ((c # cs) ! k)))
      \<longleftrightarrow> x = CertExpires i (CommonName c) (NotAfter c)"
    proof
      assume "\<exists>k < length (c # cs). instant (NotAfter ((c # cs) ! k)) < instant T
        \<and> (\<forall>j < k. \<not> instant (NotAfter ((c # cs) ! j)) < instant T)
        \<and> x = CertExpires (i + k) (CommonName ((c # cs) ! k)) (NotAfter ((c # cs) ! k))"
      then obtain k where k: "\<forall>j < k. \<not> instant (NotAfter ((c # cs) ! j)) < instant T"
        "x = CertExpires (i + k) (CommonName ((c # cs) ! k)) (NotAfter ((c # cs) ! k))"
        by blast
      from k(1) True have "k = 0" by (cases k) auto
      with k(2) show "x = CertExpires i (CommonName c) (NotAfter c)" by simp
    next
      assume "x = CertExpires i (CommonName c) (NotAfter c)"
      with True show "\<exists>k < length (c # cs). instant (NotAfter ((c # cs) ! k)) < instant T
        \<and> (\<forall>j < k. \<not> instant (NotAfter ((c # cs) ! j)) < instant T)
        \<and> x = CertExpires (i + k) (CommonName ((c # cs) ! k)) (NotAfter ((c # cs) ! k))"
        by (intro exI [of _ 0]) simp
    qed
    with True show ?thesis by (auto simp: After_def)
  next
    case False
    have "(\<exists>k < length (c # cs). instant (NotAfter ((c # cs) ! k)) < instant T
        \<and> (\<forall>j < k. \<not> instant (NotAfter ((c # cs) ! j)) < instant T)
        \<and> x = CertExpires (i + k) (CommonName ((c # cs) ! k)) (NotAfter ((c # cs) ! k)))
      \<longleftrightarrow> (\<exists>k < length cs. instant (NotAfter (cs ! k)) < instant T
        \<and> (\<forall>j < k. \<not> instant (NotAfter (cs ! j)) < instant T)
        \<and> x = CertExpires (Suc i + k) (CommonName (cs ! k)) (NotAfter (cs ! k)))"
      (is "?L \<longleftrightarrow> ?R")
    proof
      assume ?L
      then obtain k where k: "k < length (c # cs)" "instant (NotAfter ((c # cs) ! k)) < instant T"
        "\<forall>j < k. \<not> instant (NotAfter ((c # cs) ! j)) < instant T"
        "x = CertExpires (i + k) (CommonName ((c # cs) ! k)) (NotAfter ((c # cs) ! k))"
        by blast
      from k(2) False obtain k' where k': "k = Suc k'" by (cases k) auto
      have "\<forall>j < k'. \<not> instant (NotAfter (cs ! j)) < instant T"
      proof (intro allI impI)
        fix j assume "j < k'"
        then have "Suc j < k" using k' by simp
        with k(3) have "\<not> instant (NotAfter ((c # cs) ! Suc j)) < instant T" by blast
        then show "\<not> instant (NotAfter (cs ! j)) < instant T" by simp
      qed
      with k k' show ?R by (intro exI [of _ k']) simp
    next
      assume ?R
      then obtain k where k: "k < length cs" "instant (NotAfter (cs ! k)) < instant T"
        "\<forall>j < k. \<not> instant (NotAfter (cs ! j)) < instant T"
        "x = CertExpires (Suc i + k) (CommonName (cs ! k)) (NotAfter (cs ! k))"
        by blast
      have "\<forall>j < Suc k. \<not> instant (NotAfter ((c # cs) ! j)) < instant T"
      proof (intro allI impI)
        fix j assume "j < Suc k"
        then show "\<not> instant (NotAfter ((c # cs) ! j)) < instant T"
          using False k(3) by (cases j) auto
      qed
      with k show ?L by (intro exI [of _ "Suc k"]) simp
    qed
    with False Cons.IH [of "Suc i"] show ?thesis by (simp add: After_def)
  qed
qed

text \<open>
  Claim C3. The loop over the chain returns no error exactly when no certificate has its
  \<open>NotAfter\<close> strictly before the threshold (so a certificate that expires at the threshold
  instant is not flagged, and the empty chain passes); it returns an error exactly for the
  lowest index \<open>k\<close> whose certificate expires strictly before the threshold, and the
  error carries \<open>k\<close>, that certificate's common name and its \<open>NotAfter\<close>. This loop is
  what \<open>checkCertificate\<close> returns after a successful dial.
\<close>

theorem evaluator_first_expiring:
  "(expiryLoop T 0 chain = None \<longleftrightarrow> (\<forall>c \<in> set chain. \<not> instant (NotAfter c) < instant T))
   \<and> (\<forall>x. expiryLoop T 0 chain = Some x \<longleftrightarrow>
        (\<exists>k < length chain. instant (NotAfter (chain ! k)) < instant T
           \<and> (\<forall>j < k. \<not> instant (NotAfter (chain ! j)) < instant T)
           \<and> x = CertExpires k (CommonName (chain ! k)) (NotAfter (chain ! k))))
   \<and> expiryLoop T 0 [] = None
   \<and> (\<forall>e d host. tlsDial e (connectHost host) = Inr chain \<longrightarrow>
        snd (fst (checkCertificate e d host)) = expiryLoop (certExpiry e d) 0 chain)"
proof -
  have a: "expiryLoop T 0 chain = None \<longleftrightarrow> (\<forall>c \<in> set chain. \<not> instant (NotAfter c) < instant T)"
    by (rule expiryLoop_None)
  have b: "\<forall>x. expiryLoop T 0 chain = Some x \<longleftrightarrow>
        (\<exists>k < length chain. instant (NotAfter (chain ! k)) < instant T
           \<and> (\<forall>j < k. \<not> instant (NotAfter (chain ! j)) < instant T)
           \<and> x = CertExpires k (CommonName (chain ! k)) (NotAfter (chain ! k)))"
    using expiryLoop_Some [of T 0 chain] by simp
  have c: "expiryLoop T 0 [] = None" by simp
  have d: "\<forall>e d host. tlsDial e (connectHost host) = Inr chain \<longrightarrow>
        snd (fst (checkCertificate e d host)) = expiryLoop (certExpiry e d) 0 chain"
    by (simp add: checkCertificate_def)
  from a b c d show ?thesis by (intro conjI)
qed

text \<open>
  A leaf that expires at the threshold instant and an issuer that expires a second before
  it: the issuer, at index 1, is flagged; the leaf alone passes.
\<close>

theorem evaluator_first_expiring_witness:
  "expiryLoop t_threshold 0 [cert_at, cert_before]
     = Some (CertExpires 1 ''ca.example'' (NotAfter cert_before))
   \<and> expiryLoop t_threshold 0 [cert_at] = None
   \<and> instant (NotAfter cert_before) < instant t_threshold
   \<and> \<not> instant (NotAfter cert_at) < instant t_threshold"
proof -
  have i: "instant t_threshold = 1796040000 * 1000000000"
    by (simp add: t_threshold_def instant_def unixSeconds_def wallSeconds_def unixDays_def
        daysBeforeYear_def daysBefore_def isLeap_def UTC_def)
  have j: "instant (NotAfter cert_before) = 1796039999 * 1000000000"
    by (simp add: cert_before_def instant_def unixSeconds_def wallSeconds_def unixDays_def
        daysBeforeYear_def daysBefore_def isLeap_def UTC_def)
  have k: "NotAfter cert_at = t_threshold" "CommonName cert_before = ''ca.example''"
    by (simp_all add: cert_at_def cert_before_def)
  show ?thesis
    using evaluator_first_expiring [of t_threshold "[cert_at, cert_before]"]
    by (simp add: After_def i j k)
qed

lemma scanLoop_eq: "scanLoop hosts ls = hosts @ map TrimSpace ls"
  by (induction ls arbitrary: hosts) simp_all

lemma Contains_single: "Contains s [c] \<longleftrightarrow> c \<in> set s"
  by (induction s) (auto simp: HasPrefix_def)

lemma connectHost_eq:
  "connectHost host = (if CHR '':'' \<in> set host then host else host @ '':443'')"
  by (simp add: connectHost_def Contains_single)


text \<open>
  Claim C6. The \<open>Hostname\<close> of the result of \<open>checkCertificate\<close>, and of the result
  that the worker sends, is the host as given, whatever the dial and the check give:
  for \<open>example.com\<close> the address dialed is \<open>example.com:443\<close> and the \<open>Hostname\<close> is
  still \<open>example.com\<close>.
\<close>

theorem outcome_hostname_unchanged:
  "Hostname (fst (fst (checkCertificate e d host))) = host
   \<and> Hostname (worker_body e d host) = host
   \<and> snd (checkCertificate e d ''example.com'') = [''example.com:443'']
   \<and> Hostname (fst (fst (checkCertificate e d ''example.com''))) = ''example.com''
   \<and> Hostname (worker_body e d ''example.com'') = ''example.com''"
proof -
  have h: "Hostname (fst (fst (checkCertificate e d x))) = x" for x
    by (simp add: checkCertificate_def Let_def split: sum.splits)
  have a: "snd (checkCertificate e d ''example.com'') = [connectHost ''example.com'']"
    by (simp add: checkCertificate_def Let_def split: sum.splits)
  show ?thesis
    unfolding a by (simp add: h Hostname_worker_body connectHost_eq)
qed

lemma Err_worker_body: "Err (worker_body e d host) = snd (fst (checkCertificate e d host))"
  by (simp add: worker_body_def checkCertificate_def Let_def split: sum.splits option.splits)

text \<open>
  Claim C8. When the dial fails, \<open>checkCertificate\<close> returns the wrapped dial error and
  has dialed once; the result that the worker sends carries that error in \<open>Err\<close>, and is
  the same whatever the clock, the days and the rest of the network are (no chain is
  evaluated). In every case the error that \<open>checkCertificate\<close> returns is the \<open>Err\<close> of
  the result that the worker sends: it goes nowhere else.
\<close>

theorem connect_error_captured:
  assumes "tlsDial e (connectHost host) = Inl err"
  shows "checkCertificate e d host
           = ((\<lparr>Hostname = host, Err = None\<rparr>, Some (TlsDial err)), [connectHost host])
    \<and> worker_body e d host = \<lparr>Hostname = host, Err = Some (TlsDial err)\<rparr>
    \<and> (\<forall>e' d'. tlsDial e' (connectHost host) = Inl err \<longrightarrow>
          worker_body e' d' host = worker_body e d host)
    \<and> (\<forall>e' d' h. Err (worker_body e' d' h) = snd (fst (checkCertificate e' d' h)))"
proof -
  have wb: "worker_body e' d' host = \<lparr>Hostname = host, Err = Some (TlsDial err)\<rparr>"
    if "tlsDial e' (connectHost host) = Inl err" for e' d'
    using that by (simp add: worker_body_def checkCertificate_def)
  have a: "checkCertificate e d host
           = ((\<lparr>Hostname = host, Err = None\<rparr>, Some (TlsDial err)), [connectHost host])"
    using assms by (simp add: checkCertificate_def)
  have b: "worker_body e d host = \<lparr>Hostname = host, Err = Some (TlsDial err)\<rparr>"
    using assms by (rule wb)
  have c: "\<forall>e' d'. tlsDial e' (connectHost host) = Inl err \<longrightarrow>
          worker_body e' d' host = worker_body e d host"
    using wb b by simp
  have d: "\<forall>e' d' h. Err (worker_body e' d' h) = snd (fst (checkCertificate e' d' h))"
    by (simp add: Err_worker_body)
  from a b c d show ?thesis by (intro conjI)
qed

text \<open>
  A network that refuses every connection.
\<close>

theorem connect_error_captured_witness:
  "tlsDial \<lparr>tlsDial = (\<lambda>_. Inl ''refused''), now = t0\<rparr> (connectHost ''example.com'') = Inl ''refused''
   \<and> worker_body \<lparr>tlsDial = (\<lambda>_. Inl ''refused''), now = t0\<rparr> 30 ''example.com''
       = \<lparr>Hostname = ''example.com'', Err = Some (TlsDial ''refused'')\<rparr>
   \<and> snd (checkCertificate \<lparr>tlsDial = (\<lambda>_. Inl ''refused''), now = t0\<rparr> 30 ''example.com'')
       = [''example.com:443'']"
  using connect_error_captured
    [of "\<lparr>tlsDial = (\<lambda>_. Inl ''refused''), now = t0\<rparr>" "''example.com''" "''refused''" 30]
  by (simp add: connectHost_eq)

lemma prefix_free_whiteSpace: "prefix_free whiteSpace"
  by code_simp

lemma whiteSpace_nonempty: "[] \<notin> set whiteSpace"
  by (simp add: whiteSpace_def)

lemma trimPrefix_split:
  "\<exists>ws. set ws \<subseteq> set W \<and> s = concat ws @ trimPrefix W s"
proof (induction W s rule: trimPrefix.induct)
  case (1 W s)
  show ?case
  proof (cases "find (\<lambda>w. w \<noteq> [] \<and> HasPrefix s w) W")
    case None
    then have "trimPrefix W s = s" by (subst trimPrefix.simps) simp
    then have "set [] \<subseteq> set W \<and> s = concat [] @ trimPrefix W s" by simp
    then show ?thesis by blast
  next
    case (Some w)
    then have w: "w \<in> set W" "take (length w) s = w"
      by (auto simp: find_Some_iff HasPrefix_def)
    from Some have t: "trimPrefix W s = trimPrefix W (drop (length w) s)"
      by (subst trimPrefix.simps) simp
    from "1.IH" [OF Some] obtain ws where ws: "set ws \<subseteq> set W"
      "drop (length w) s = concat ws @ trimPrefix W (drop (length w) s)" by blast
    have "s = take (length w) s @ drop (length w) s" by simp
    with w(2) ws(2) t have "s = concat (w # ws) @ trimPrefix W s" by simp
    moreover from w(1) ws(1) have "set (w # ws) \<subseteq> set W" by simp
    ultimately show ?thesis by blast
  qed
qed

lemma trimPrefix_done:
  "w \<in> set W \<Longrightarrow> w \<noteq> [] \<Longrightarrow> \<not> HasPrefix (trimPrefix W s) w"
proof (induction W s rule: trimPrefix.induct)
  case (1 W s)
  show ?case
  proof (cases "find (\<lambda>w. w \<noteq> [] \<and> HasPrefix s w) W")
    case None
    then have "trimPrefix W s = s" by (subst trimPrefix.simps) simp
    moreover from None "1.prems" have "\<not> HasPrefix s w" by (auto simp: find_None_iff)
    ultimately show ?thesis by simp
  next
    case (Some v)
    then have "trimPrefix W s = trimPrefix W (drop (length v) s)"
      by (subst trimPrefix.simps) simp
    with "1.IH" [OF Some "1.prems"] show ?thesis by simp
  qed
qed

lemma trimPrefix_Nil: "trimPrefix W [] = []"
proof -
  have "find (\<lambda>w. w \<noteq> [] \<and> HasPrefix [] w) W = None"
    by (auto simp: find_None_iff HasPrefix_def)
  then show ?thesis by (subst trimPrefix.simps) simp
qed

lemma two_prefixes:
  assumes pf: "prefix_free W" and w: "w \<in> set W" "HasPrefix s w" and v: "v \<in> set W" "HasPrefix s v"
  shows "v = w"
proof -
  from w(2) v(2) have tw: "take (length w) s = w" and tv: "take (length v) s = v"
    by (simp_all add: HasPrefix_def)
  from pf w(1) v(1) have a: "HasPrefix w v \<longrightarrow> w = v" and b: "HasPrefix v w \<longrightarrow> v = w"
    by (auto simp: prefix_free_def list_all_iff)
  show ?thesis
  proof (cases "length v \<le> length w")
    case True
    have "take (length v) w = take (length v) (take (length w) s)" using tw by simp
    also have "\<dots> = take (length v) s" using True by (simp add: min_def)
    finally have "HasPrefix w v" using tv by (simp add: HasPrefix_def)
    with a show ?thesis by simp
  next
    case False
    have "take (length w) v = take (length w) (take (length v) s)" using tv by simp
    also have "\<dots> = take (length w) s" using False by (simp add: min_def)
    finally have "HasPrefix v w" using tw by (simp add: HasPrefix_def)
    with b show ?thesis by simp
  qed
qed

lemma trimPrefix_concat:
  assumes pf: "prefix_free W" and ne: "[] \<notin> set W"
  shows "set ws \<subseteq> set W \<Longrightarrow> trimPrefix W (concat ws @ t) = trimPrefix W t"
proof (induction ws)
  case Nil
  then show ?case by simp
next
  case (Cons w ws)
  let ?s = "concat (w # ws) @ t"
  from Cons.prems have w: "w \<in> set W" and ws: "set ws \<subseteq> set W" by simp_all
  from w ne have wne: "w \<noteq> []" by auto
  have hp: "HasPrefix ?s w" by (simp add: HasPrefix_def)
  with w wne have "find (\<lambda>w. w \<noteq> [] \<and> HasPrefix ?s w) W \<noteq> None"
    by (auto simp: find_None_iff)
  then obtain v where f: "find (\<lambda>w. w \<noteq> [] \<and> HasPrefix ?s w) W = Some v" by auto
  then have "v \<in> set W" "HasPrefix ?s v" by (auto simp: find_Some_iff)
  with pf w hp have "v = w" by (rule two_prefixes)
  with f have "trimPrefix W ?s = trimPrefix W (drop (length w) ?s)"
    by (subst trimPrefix.simps) simp
  also have "drop (length w) ?s = concat ws @ t" by simp
  finally show ?case using Cons.IH [OF ws] by simp
qed

lemma TrimSpace_split: "\<exists>pre post. l = pre @ TrimSpace l @ post \<and> blank pre \<and> blank post"
proof -
  let ?m = "TrimLeft l"
  from trimPrefix_split [of whiteSpace l] obtain ws where
    ws: "set ws \<subseteq> set whiteSpace" "l = concat ws @ ?m" by (auto simp: TrimLeft_def)
  from trimPrefix_split [of "map rev whiteSpace" "rev ?m"] obtain vs where
    vs: "set vs \<subseteq> set (map rev whiteSpace)"
      "rev ?m = concat vs @ trimPrefix (map rev whiteSpace) (rev ?m)" by blast
  from vs(2) have "rev (rev ?m) = rev (concat vs @ trimPrefix (map rev whiteSpace) (rev ?m))"
    by simp
  then have m: "?m = TrimSpace l @ concat (rev (map rev vs))"
    by (simp add: TrimSpace_def TrimRight_def rev_concat rev_map)
  from vs(1) have "set (rev (map rev vs)) \<subseteq> set whiteSpace" by auto
  then have "blank (concat (rev (map rev vs)))" unfolding blank_def by blast
  moreover from ws(1) have "blank (concat ws)" unfolding blank_def by blast
  moreover from ws(2) m have "l = concat ws @ TrimSpace l @ concat (rev (map rev vs))" by simp
  ultimately show ?thesis by blast
qed

lemma TrimSpace_no_suffix:
  assumes "w \<in> set whiteSpace"
  shows "\<not> HasSuffix (TrimSpace l) w"
proof -
  from assms whiteSpace_nonempty have "rev w \<in> set (map rev whiteSpace)" "rev w \<noteq> []" by auto
  from trimPrefix_done [OF this, of "rev (TrimLeft l)"]
  show ?thesis by (simp add: HasSuffix_def TrimSpace_def TrimRight_def)
qed

lemma TrimSpace_no_prefix:
  assumes "w \<in> set whiteSpace"
  shows "\<not> HasPrefix (TrimSpace l) w"
proof
  assume h: "HasPrefix (TrimSpace l) w"
  then have len: "length w \<le> length (TrimSpace l)"
    by (metis HasPrefix_def length_take min.cobounded1)
  from trimPrefix_split [of "map rev whiteSpace" "rev (TrimLeft l)"] obtain vs where
    "rev (TrimLeft l) = concat vs @ trimPrefix (map rev whiteSpace) (rev (TrimLeft l))" by blast
  then have "rev (rev (TrimLeft l)) = rev (concat vs @ trimPrefix (map rev whiteSpace) (rev (TrimLeft l)))"
    by simp
  then have "TrimLeft l = TrimSpace l @ rev (concat vs)"
    by (simp add: TrimSpace_def TrimRight_def)
  then have "take (length w) (TrimLeft l) = take (length w) (TrimSpace l)"
    using len by (metis append_eq_conv_conj take_all_iff take_append take_take min.absorb1
        diff_is_0_eq take_0 append_Nil2)
  with h have "HasPrefix (TrimLeft l) w" by (simp add: HasPrefix_def)
  moreover from assms whiteSpace_nonempty have "w \<noteq> []" by auto
  ultimately show False
    using trimPrefix_done [OF assms, of l] by (simp add: TrimLeft_def)
qed

lemma TrimSpace_blank:
  assumes "blank l"
  shows "TrimSpace l = []"
proof -
  from assms obtain ws where ws: "set ws \<subseteq> set whiteSpace" "l = concat ws"
    by (auto simp: blank_def)
  from trimPrefix_concat [OF prefix_free_whiteSpace whiteSpace_nonempty ws(1), of "[]"] ws(2)
  have "TrimLeft l = []" by (simp add: TrimLeft_def trimPrefix_Nil)
  then show ?thesis by (simp add: TrimSpace_def TrimRight_def trimPrefix_Nil)
qed

text \<open>
  Claim C10. For a file that opens and is scanned without error, \<open>readHostsFile\<close> returns
  no error and the trimmed lines in file order, one entry per line: each entry is its line
  without a prefix and a suffix of white space, it neither begins nor ends with white
  space, and a line of white space only (or an empty one) gives the empty entry.
\<close>

theorem readHostsFile_one_entry_per_line:
  assumes "fs path = Opened ls None"
  shows "readHostsFile fs path = (map TrimSpace ls, None)
    \<and> length (fst (readHostsFile fs path)) = length ls
    \<and> (\<forall>i < length ls.
         (\<exists>pre post. ls ! i = pre @ fst (readHostsFile fs path) ! i @ post
             \<and> blank pre \<and> blank post)
         \<and> (\<forall>w \<in> set whiteSpace.
               \<not> HasPrefix (fst (readHostsFile fs path) ! i) w
             \<and> \<not> HasSuffix (fst (readHostsFile fs path) ! i) w)
         \<and> (blank (ls ! i) \<longrightarrow> fst (readHostsFile fs path) ! i = []))"
proof -
  have eq: "readHostsFile fs path = (map TrimSpace ls, None)"
    using assms by (simp add: readHostsFile_def scanLoop_eq)
  have each: "(\<exists>pre post. l = pre @ TrimSpace l @ post \<and> blank pre \<and> blank post)
         \<and> (\<forall>w \<in> set whiteSpace. \<not> HasPrefix (TrimSpace l) w \<and> \<not> HasSuffix (TrimSpace l) w)
         \<and> (blank l \<longrightarrow> TrimSpace l = [])" for l
    using TrimSpace_split [of l] TrimSpace_no_prefix [of _ l] TrimSpace_no_suffix [of _ l]
      TrimSpace_blank [of l] by blast
  show ?thesis unfolding eq using each by simp
qed

text \<open>
  Five lines: one with a space at the end, one of spaces, an empty one, one that begins
  with a tab, and one between a no-break space (U+00A0) and an ideographic space (U+3000).
\<close>

theorem readHostsFile_one_entry_per_line_witness:
  "readHostsFile
     (\<lambda>_. Opened [''a.example '', ''   '', [], [CHR 0x09] @ ''b.example:8443'',
                   [CHR 0xC2, CHR 0xA0] @ ''c.example'' @ [CHR 0xE3, CHR 0x80, CHR 0x80]] None)
     ''hosts.txt''
     = ([''a.example'', [], [], ''b.example:8443'', ''c.example''], None)"
proof -
  have t: "TrimSpace ''a.example '' = ''a.example''" "TrimSpace ''   '' = []"
    "TrimSpace [] = []" "TrimSpace ([CHR 0x09] @ ''b.example:8443'') = ''b.example:8443''"
    "TrimSpace ([CHR 0xC2, CHR 0xA0] @ ''c.example'' @ [CHR 0xE3, CHR 0x80, CHR 0x80])
       = ''c.example''"
    by code_simp+
  show ?thesis
    using readHostsFile_one_entry_per_line
      [of "\<lambda>_. Opened [''a.example '', ''   '', [], [CHR 0x09] @ ''b.example:8443'',
                   [CHR 0xC2, CHR 0xA0] @ ''c.example'' @ [CHR 0xE3, CHR 0x80, CHR 0x80]] None"
          "''hosts.txt''"
          "[''a.example '', ''   '', [], [CHR 0x09] @ ''b.example:8443'',
                   [CHR 0xC2, CHR 0xA0] @ ''c.example'' @ [CHR 0xE3, CHR 0x80, CHR 0x80]]"]
      t
    by simp
qed

subsection \<open>The threshold\<close>

lemma month_cases:
  assumes "1 \<le> m" "m \<le> (12::int)"
  shows "m = 1 \<or> m = 2 \<or> m = 3 \<or> m = 4 \<or> m = 5 \<or> m = 6
    \<or> m = 7 \<or> m = 8 \<or> m = 9 \<or> m = 10 \<or> m = 11 \<or> m = 12"
  using assms by arith

lemma div_pred:
  fixes y k :: int
  assumes "0 < k"
  shows "y div k = (y - 1) div k + (if y mod k = 0 then 1 else 0)"
proof (cases "y mod k = 0")
  case True
  have "y - 1 = k * (y div k - 1) + (k - 1)"
    using True by (simp add: algebra_simps) (metis mult.commute mult_div_mod_eq add.right_neutral)
  then have "(y - 1) div k = y div k - 1"
    using assms by (intro int_div_pos_eq [where r = "k - 1"]) simp_all
  with True show ?thesis by simp
next
  case False
  have "0 \<le> y mod k" "y mod k < k" using assms by simp_all
  with False have r: "0 \<le> y mod k - 1" "y mod k - 1 < k" by simp_all
  have "y - 1 = k * (y div k) + (y mod k - 1)" by simp
  then have "(y - 1) div k = y div k"
    using r by (intro int_div_pos_eq [where r = "y mod k - 1"]) simp_all
  with False show ?thesis by simp
qed

lemma m400_100:
  assumes "(y::int) mod 400 = 0"
  shows "y mod 100 = 0"
proof -
  have "(100::int) dvd 400" by simp
  from mod_mod_cancel [OF this, of y] assms show ?thesis by simp
qed

lemma m100_4:
  assumes "(y::int) mod 100 = 0"
  shows "y mod 4 = 0"
proof -
  have "(4::int) dvd 100" by simp
  from mod_mod_cancel [OF this, of y] assms show ?thesis by simp
qed

lemma daysBeforeYear_Suc:
  "daysBeforeYear (y + 1) = daysBeforeYear y + 365 + (if isLeap y then 1 else 0)"
proof -
  have a: "y div 4 = (y - 1) div 4 + (if y mod 4 = 0 then 1 else 0)"
    by (rule div_pred) simp
  have b: "y div 100 = (y - 1) div 100 + (if y mod 100 = 0 then 1 else 0)"
    by (rule div_pred) simp
  have c: "y div 400 = (y - 1) div 400 + (if y mod 400 = 0 then 1 else 0)"
    by (rule div_pred) simp
  have l: "daysBeforeYear (y + 1) = 365 * y + y div 4 - y div 100 + y div 400"
    by (simp only: daysBeforeYear_def add_diff_cancel_right')
  have r: "daysBeforeYear y = 365 * y - 365 + (y - 1) div 4 - (y - 1) div 100 + (y - 1) div 400"
    by (simp only: daysBeforeYear_def right_diff_distrib mult_1_right)
  show ?thesis
  proof (cases "y mod 4 = 0")
    case n4: False
    with m100_4 [of y] have n100: "y mod 100 \<noteq> 0" by auto
    with m400_100 [of y] have n400: "y mod 400 \<noteq> 0" by auto
    from n4 have leap: "\<not> isLeap y" by (simp only: isLeap_def simp_thms)
    from a n4 have a': "y div 4 = (y - 1) div 4" by (simp only: if_False add_0_right simp_thms)
    from b n100 have b': "y div 100 = (y - 1) div 100" by (simp only: if_False add_0_right simp_thms)
    from c n400 have c': "y div 400 = (y - 1) div 400" by (simp only: if_False add_0_right simp_thms)
    have "daysBeforeYear (y + 1) = daysBeforeYear y + 365 + 0"
      unfolding l r a' b' c' by linarith
    with leap show ?thesis by (simp only: if_False)
  next
    case y4: True
    from a y4 have a': "y div 4 = (y - 1) div 4 + 1" by (simp only: if_True simp_thms)
    show ?thesis
    proof (cases "y mod 100 = 0")
      case n100: False
      with m400_100 [of y] have n400: "y mod 400 \<noteq> 0" by auto
      from y4 n100 have leap: "isLeap y" by (simp only: isLeap_def simp_thms)
      from b n100 have b': "y div 100 = (y - 1) div 100" by (simp only: if_False add_0_right simp_thms)
      from c n400 have c': "y div 400 = (y - 1) div 400" by (simp only: if_False add_0_right simp_thms)
      have "daysBeforeYear (y + 1) = daysBeforeYear y + 365 + 1"
        unfolding l r a' b' c' by linarith
      with leap show ?thesis by (simp only: if_True simp_thms)
    next
      case y100: True
      from b y100 have b': "y div 100 = (y - 1) div 100 + 1" by (simp only: if_True simp_thms)
      show ?thesis
      proof (cases "y mod 400 = 0")
        case n400: False
        from y100 n400 have leap: "\<not> isLeap y" by (simp only: isLeap_def simp_thms)
        from c n400 have c': "y div 400 = (y - 1) div 400" by (simp only: if_False add_0_right simp_thms)
        have "daysBeforeYear (y + 1) = daysBeforeYear y + 365 + 0"
          unfolding l r a' b' c' by linarith
        with leap show ?thesis by (simp only: if_False)
      next
        case y400: True
        from y4 y400 have leap: "isLeap y" by (simp only: isLeap_def simp_thms)
        from c y400 have c': "y div 400 = (y - 1) div 400 + 1" by (simp only: if_True simp_thms)
        have "daysBeforeYear (y + 1) = daysBeforeYear y + 365 + 1"
          unfolding l r a' b' c' by linarith
        with leap show ?thesis by (simp only: if_True simp_thms)
      qed
    qed
  qed
qed

lemma daysBefore_values:
  "daysBefore 1 = 0" "daysBefore 2 = 31" "daysBefore 3 = 59" "daysBefore 4 = 90"
  "daysBefore 5 = 120" "daysBefore 6 = 151" "daysBefore 7 = 181" "daysBefore 8 = 212"
  "daysBefore 9 = 243" "daysBefore 10 = 273" "daysBefore 11 = 304" "daysBefore 12 = 334"
  by (simp_all add: daysBefore_def)

lemma daysIn_values:
  "daysIn y 1 = 31" "daysIn y 2 = (if isLeap y then 29 else 28)" "daysIn y 3 = 31"
  "daysIn y 4 = 30" "daysIn y 5 = 31" "daysIn y 6 = 30" "daysIn y 7 = 31" "daysIn y 8 = 31"
  "daysIn y 9 = 30" "daysIn y 10 = 31" "daysIn y 11 = 30" "daysIn y 12 = 31"
  by (simp_all add: daysIn_def)

lemma unixDays_next_month:
  assumes "1 \<le> m" "m < 12"
  shows "unixDays y (m + 1) (d - daysIn y m) = unixDays y m d"
proof -
  from assms have "m = 1 \<or> m = 2 \<or> m = 3 \<or> m = 4 \<or> m = 5 \<or> m = 6
    \<or> m = 7 \<or> m = 8 \<or> m = 9 \<or> m = 10 \<or> m = 11"
    using month_cases [of m] by simp
  then show ?thesis
    by (elim disjE) (simp_all add: unixDays_def daysBefore_values daysIn_values)
qed

lemma unixDays_next_year: "unixDays (y + 1) 1 (d - daysIn y 12) = unixDays y 12 d"
  by (simp add: unixDays_def daysBefore_values daysIn_values daysBeforeYear_Suc)

lemma unixDays_normDay:
  "1 \<le> m \<Longrightarrow> m \<le> 12 \<Longrightarrow> normDay y m d = (y', m', d') \<Longrightarrow>
   unixDays y' m' d' = unixDays y m d \<and> 1 \<le> m' \<and> m' \<le> 12 \<and> 1 \<le> d' \<and> d' \<le> daysIn y' m'"
proof (induction y m d rule: normDay.induct)
  case (1 y m d)
  show ?case
  proof (cases "daysIn y m < d")
    case over: True
    show ?thesis
    proof (cases "m = 12")
      case True
      with over "1.prems" have "normDay (y + 1) 1 (d - daysIn y m) = (y', m', d')"
        by (subst (asm) normDay.simps) simp
      from "1.IH"(1) [OF over True _ _ this] True show ?thesis
        by (simp add: unixDays_next_year)
    next
      case False
      with over "1.prems" have "normDay y (m + 1) (d - daysIn y m) = (y', m', d')"
        by (subst (asm) normDay.simps) simp
      from "1.IH"(2) [OF over False _ _ this] False "1.prems"(1,2) show ?thesis
        by (simp add: unixDays_next_month)
    qed
  next
    case notover: False
    show ?thesis
    proof (cases "d < 1")
      case under: True
      show ?thesis
      proof (cases "m = 1")
        case True
        with notover under "1.prems" have "normDay (y - 1) 12 (d + daysIn (y - 1) 12) = (y', m', d')"
          by (subst (asm) normDay.simps) simp
        from "1.IH"(3) [OF notover under True _ _ this] True
          unixDays_next_year [of "y - 1" "d + daysIn (y - 1) 12"]
        show ?thesis by simp
      next
        case False
        with notover under "1.prems" have "normDay y (m - 1) (d + daysIn y (m - 1)) = (y', m', d')"
          by (subst (asm) normDay.simps) simp
        from "1.IH"(4) [OF notover under False _ _ this] False "1.prems"(1,2)
          unixDays_next_month [of "m - 1" y "d + daysIn y (m - 1)"]
        show ?thesis by simp
      qed
    next
      case False
      with notover "1.prems" show ?thesis
        by (subst (asm) normDay.simps) simp
    qed
  qed
qed

lemma AddDate_days:
  assumes "1 \<le> month t" "month t \<le> 12"
  shows "AddDate t 0 0 d =
     (case normDay (year t) (month t) (day t + d) of
        (y2, m2, d2) \<Rightarrow> t\<lparr>year := y2, month := m2, day := d2\<rparr>)"
proof -
  from assms have "(month t - 1) div 12 = 0" "(month t - 1) mod 12 = month t - 1"
    by simp_all
  then show ?thesis by (simp add: AddDate_def Let_def)
qed

lemma AddDate_day_count:
  assumes "1 \<le> month t" "month t \<le> 12"
  shows "unixDays (year (AddDate t 0 0 d)) (month (AddDate t 0 0 d)) (day (AddDate t 0 0 d))
           = unixDays (year t) (month t) (day t) + d
    \<and> 1 \<le> month (AddDate t 0 0 d) \<and> month (AddDate t 0 0 d) \<le> 12
    \<and> 1 \<le> day (AddDate t 0 0 d)
    \<and> day (AddDate t 0 0 d) \<le> daysIn (year (AddDate t 0 0 d)) (month (AddDate t 0 0 d))"
proof -
  obtain y2 m2 d2 where n: "normDay (year t) (month t) (day t + d) = (y2, m2, d2)"
    by (cases "normDay (year t) (month t) (day t + d)")
  from unixDays_normDay [OF assms n]
  have u: "unixDays y2 m2 d2 = unixDays (year t) (month t) (day t + d)"
    and r: "1 \<le> m2" "m2 \<le> 12" "1 \<le> d2" "d2 \<le> daysIn y2 m2" by blast+
  have lin: "unixDays (year t) (month t) (day t + d) = unixDays (year t) (month t) (day t) + d"
    unfolding unixDays_def by linarith
  have eq: "AddDate t 0 0 d = t\<lparr>year := y2, month := m2, day := d2\<rparr>"
    unfolding AddDate_days [OF assms] n by (simp only: prod.case)
  have sel: "year (AddDate t 0 0 d) = y2" "month (AddDate t 0 0 d) = m2" "day (AddDate t 0 0 d) = d2"
    unfolding eq by simp_all
  show ?thesis unfolding sel using u lin r by (simp only: simp_thms)
qed

lemma AddDate_clock:
  "hour (AddDate t a b d) = hour t \<and> minute (AddDate t a b d) = minute t
   \<and> second (AddDate t a b d) = second t \<and> nsec (AddDate t a b d) = nsec t
   \<and> loc (AddDate t a b d) = loc t"
  by (simp add: AddDate_def Let_def split: prod.splits)

lemma normDay_jan15: "normDay y 1 45 = (y, 2, 14)"
proof -
  have "normDay y 1 45 = normDay y 2 14"
    by (subst normDay.simps) (simp add: daysIn_values)
  also have "\<dots> = (y, 2, 14)"
    by (subst normDay.simps) (simp add: daysIn_values)
  finally show ?thesis .
qed

lemma normDay_dec15: "normDay y 12 45 = (y + 1, 1, 14)"
proof -
  have "normDay y 12 45 = normDay (y + 1) 1 14"
    by (subst normDay.simps) (simp add: daysIn_values)
  also have "\<dots> = (y + 1, 1, 14)"
    by (subst normDay.simps) (simp add: daysIn_values)
  finally show ?thesis .
qed

lemma normDay_mar15: "normDay y 3 45 = (y, 4, 14)"
proof -
  have "normDay y 3 45 = normDay y 4 14"
    by (subst normDay.simps) (simp add: daysIn_values)
  also have "\<dots> = (y, 4, 14)"
    by (subst normDay.simps) (simp add: daysIn_values)
  finally show ?thesis .
qed

text \<open>
  Claim C7. The threshold is the reading of the clock moved by \<open>*days\<close> calendar days:
  January 15 plus 30 days is February 14 of the same year, December 15 plus 30 days is
  January 14 of the next year, the time of day and the location are kept, and for a clock
  reading with a month in 1..12 the result is a date of the calendar (its day lies within
  its month) whose day number is that of the reading plus \<open>*days\<close>. It is not a fixed
  multiple of 24 hours: across the change of offset of the location \<open>cet\<close>, 30 days
  are 30 times 24 hours less one hour.
\<close>

theorem threshold_calendar_days:
  "certExpiry \<lparr>tlsDial = f, now = \<lparr>year = y, month = 1, day = 15, hour = h, minute = mi,
        second = s, nsec = ns, loc = l\<rparr>\<rparr> 30
     = \<lparr>year = y, month = 2, day = 14, hour = h, minute = mi, second = s, nsec = ns, loc = l\<rparr>
   \<and> certExpiry \<lparr>tlsDial = f, now = \<lparr>year = y, month = 12, day = 15, hour = h, minute = mi,
        second = s, nsec = ns, loc = l\<rparr>\<rparr> 30
     = \<lparr>year = y + 1, month = 1, day = 14, hour = h, minute = mi, second = s, nsec = ns, loc = l\<rparr>
   \<and> hour (certExpiry e d) = hour (now e) \<and> minute (certExpiry e d) = minute (now e)
   \<and> second (certExpiry e d) = second (now e) \<and> nsec (certExpiry e d) = nsec (now e)
   \<and> loc (certExpiry e d) = loc (now e)
   \<and> (1 \<le> month (now e) \<and> month (now e) \<le> 12 \<longrightarrow>
        unixDays (year (certExpiry e d)) (month (certExpiry e d)) (day (certExpiry e d))
          = unixDays (year (now e)) (month (now e)) (day (now e)) + d
        \<and> 1 \<le> month (certExpiry e d) \<and> month (certExpiry e d) \<le> 12
        \<and> 1 \<le> day (certExpiry e d)
        \<and> day (certExpiry e d) \<le> daysIn (year (certExpiry e d)) (month (certExpiry e d)))
   \<and> instant (certExpiry \<lparr>tlsDial = f, now = \<lparr>year = 2026, month = 3, day = 15, hour = 12,
          minute = 0, second = 0, nsec = 0, loc = cet\<rparr>\<rparr> 30)
       - instant \<lparr>year = 2026, month = 3, day = 15, hour = 12,
          minute = 0, second = 0, nsec = 0, loc = cet\<rparr>
     = (30 * 24 - 1) * 3600 * 1000000000"
proof -
  have a: "certExpiry \<lparr>tlsDial = f, now = \<lparr>year = y, month = 1, day = 15, hour = h, minute = mi,
        second = s, nsec = ns, loc = l\<rparr>\<rparr> 30
     = \<lparr>year = y, month = 2, day = 14, hour = h, minute = mi, second = s, nsec = ns, loc = l\<rparr>"
    by (simp add: certExpiry_def AddDate_days normDay_jan15)
  have b: "certExpiry \<lparr>tlsDial = f, now = \<lparr>year = y, month = 12, day = 15, hour = h, minute = mi,
        second = s, nsec = ns, loc = l\<rparr>\<rparr> 30
     = \<lparr>year = y + 1, month = 1, day = 14, hour = h, minute = mi, second = s, nsec = ns, loc = l\<rparr>"
    by (simp add: certExpiry_def AddDate_days normDay_dec15)
  have c: "hour (certExpiry e d) = hour (now e) \<and> minute (certExpiry e d) = minute (now e)
   \<and> second (certExpiry e d) = second (now e) \<and> nsec (certExpiry e d) = nsec (now e)
   \<and> loc (certExpiry e d) = loc (now e)"
    unfolding certExpiry_def by (rule AddDate_clock)
  have g: "1 \<le> month (now e) \<and> month (now e) \<le> 12 \<longrightarrow>
        unixDays (year (certExpiry e d)) (month (certExpiry e d)) (day (certExpiry e d))
          = unixDays (year (now e)) (month (now e)) (day (now e)) + d
        \<and> 1 \<le> month (certExpiry e d) \<and> month (certExpiry e d) \<le> 12
        \<and> 1 \<le> day (certExpiry e d)
        \<and> day (certExpiry e d) \<le> daysIn (year (certExpiry e d)) (month (certExpiry e d))"
    unfolding certExpiry_def using AddDate_day_count [of "now e" d] by blast
  have x: "certExpiry \<lparr>tlsDial = f, now = \<lparr>year = 2026, month = 3, day = 15, hour = 12,
          minute = 0, second = 0, nsec = 0, loc = cet\<rparr>\<rparr> 30
        = \<lparr>year = 2026, month = 4, day = 14, hour = 12,
          minute = 0, second = 0, nsec = 0, loc = cet\<rparr>"
    by (simp add: certExpiry_def AddDate_days normDay_mar15)
  have i1: "instant \<lparr>year = 2026, month = 4, day = 14, hour = 12,
          minute = 0, second = 0, nsec = 0, loc = cet\<rparr> = 1776160800 * 1000000000"
    by (simp add: instant_def unixSeconds_def wallSeconds_def unixDays_def daysBeforeYear_def
        daysBefore_values isLeap_def cet_def)
  have i0: "instant \<lparr>year = 2026, month = 3, day = 15, hour = 12,
          minute = 0, second = 0, nsec = 0, loc = cet\<rparr> = 1773572400 * 1000000000"
    by (simp add: instant_def unixSeconds_def wallSeconds_def unixDays_def daysBeforeYear_def
        daysBefore_values isLeap_def cet_def)
  have h: "instant (certExpiry \<lparr>tlsDial = f, now = \<lparr>year = 2026, month = 3, day = 15, hour = 12,
          minute = 0, second = 0, nsec = 0, loc = cet\<rparr>\<rparr> 30)
       - instant \<lparr>year = 2026, month = 3, day = 15, hour = 12,
          minute = 0, second = 0, nsec = 0, loc = cet\<rparr>
     = (30 * 24 - 1) * 3600 * 1000000000"
    unfolding x i1 i0 by simp
  from a b c g h show ?thesis by blast
qed

text \<open>
  February 15 of the leap year 2024 plus 30 days is March 16.
\<close>

theorem threshold_calendar_days_witness:
  "(1::int) \<le> 2 \<and> (2::int) \<le> 12
   \<and> certExpiry \<lparr>tlsDial = (\<lambda>_. Inl ''refused''),
         now = \<lparr>year = 2024, month = 2, day = 15, hour = 12, minute = 0, second = 0, nsec = 0,
                 loc = UTC\<rparr>\<rparr> 30
       = \<lparr>year = 2024, month = 3, day = 16, hour = 12, minute = 0, second = 0, nsec = 0, loc = UTC\<rparr>
   \<and> unixDays 2024 3 16 = unixDays 2024 2 15 + 30"
proof -
  let ?e = "\<lparr>tlsDial = (\<lambda>_. Inl ''refused''),
         now = \<lparr>year = 2024, month = 2, day = 15, hour = 12, minute = 0, second = 0, nsec = 0,
                 loc = UTC\<rparr>\<rparr>"
  have "normDay 2024 2 45 = normDay 2024 3 16"
    by (subst normDay.simps) (simp add: daysIn_values isLeap_def)
  also have "\<dots> = (2024, 3, 16)"
    by (subst normDay.simps) (simp add: daysIn_values)
  finally have n: "normDay 2024 2 45 = (2024, 3, 16)" .
  have c: "certExpiry ?e 30
       = \<lparr>year = 2024, month = 3, day = 16, hour = 12, minute = 0, second = 0, nsec = 0, loc = UTC\<rparr>"
    by (simp add: certExpiry_def AddDate_days n)
  from threshold_calendar_days [where e = ?e and d = 30] c show ?thesis
    by simp
qed

end
